theory Spec2Isabelle
  imports Main
begin

section \<open>Common conventions\<close>

text \<open>
  Memory is an array of cells, each as large as one \<^verbatim>\<open>Header\<close>; a \<^verbatim>\<open>Header *\<close> is the
  index of a cell, so that \<^verbatim>\<open>bp + n\<close> of the C code is \<open>bp + n\<close> on indices. Cell \<open>0\<close> is
  the null pointer, cell \<open>1\<close> (and \<open>2\<close> in the second allocator) holds the static
  \<^verbatim>\<open>base\<close>, and the arena lies above them. Values of type \<^verbatim>\<open>size_t\<close> are natural
  numbers below \<open>2 ^ 64\<close>; \<open>size_t\<close> writes the wrap-around out wherever the C code
  computes with them.
\<close>

abbreviation NULL :: nat where
  "NULL \<equiv> 0"

definition size_t :: "nat \<Rightarrow> nat" where
  "size_t x = x mod 2 ^ 64"

definition ENOMEM :: nat where
  "ENOMEM = 12"

datatype fault = AssertFailed

text \<open>
  Copying the low \<open>k\<close> bytes of the little-endian field \<open>a\<close> over the field \<open>b\<close>.
\<close>

definition mix_bytes :: "nat \<Rightarrow> nat \<Rightarrow> nat \<Rightarrow> nat" where
  "mix_bytes k a b = a mod 256 ^ k + (b div 256 ^ k) * 256 ^ k"

section \<open>The arena\<close>

text \<open>
  Modelled from the spec: the arena primitives \<^verbatim>\<open>mem_init\<close>, \<^verbatim>\<open>mem_sbrk\<close>,
  \<^verbatim>\<open>mem_reset_brk\<close>, \<^verbatim>\<open>mem_heapsize\<close>, \<^verbatim>\<open>mem_heap_lo\<close>, \<^verbatim>\<open>mem_heap_hi\<close> and
  \<^verbatim>\<open>mem_pagesize\<close> of \<^verbatim>\<open>memlib.h\<close> are not part of the sources. The spec describes a
  linear growable byte buffer: "extend by N bytes, return start pointer or failure",
  "current size", "low/high bounds", "page size", "reset". The buffer starts at byte
  address \<open>heap_lo\<close>, holds \<open>mem_brk\<close> bytes and can grow to \<open>mem_max\<close> bytes; an
  extension beyond that fails and changes nothing.
\<close>

record arena =
  heap_lo :: nat
  mem_brk :: nat
  mem_max :: nat
  pagesz :: nat

definition mem_init :: "arena \<Rightarrow> arena" where
  "mem_init a = a\<lparr>mem_brk := 0\<rparr>"

definition mem_reset_brk :: "arena \<Rightarrow> arena" where
  "mem_reset_brk a = a\<lparr>mem_brk := 0\<rparr>"

definition mem_sbrk :: "arena \<Rightarrow> nat \<Rightarrow> arena \<times> nat option" where
  "mem_sbrk a incr =
     (if mem_brk a + incr > mem_max a then (a, None)
      else (a\<lparr>mem_brk := mem_brk a + incr\<rparr>, Some (heap_lo a + mem_brk a)))"

definition mem_heapsize :: "arena \<Rightarrow> nat" where
  "mem_heapsize a = mem_brk a"

definition mem_heap_lo :: "arena \<Rightarrow> nat" where
  "mem_heap_lo a = heap_lo a"

definition mem_heap_hi :: "arena \<Rightarrow> nat" where
  "mem_heap_hi a = heap_lo a + mem_brk a - 1"

definition mem_pagesize :: "arena \<Rightarrow> nat" where
  "mem_pagesize a = pagesz a"

section \<open>The allocator of mm_heap_kr2.c\<close>

text \<open>
  Every block, free or allocated, is on one circular doubly linked list that starts at
  \<^verbatim>\<open>base\<close>; a flag in the header says whether the block is free.
\<close>

record kr2_Header =
  k_prev :: nat
  k_next :: nat
  k_isFree :: bool
  k_size :: nat

record kr2_state =
  k_mem :: "nat \<Rightarrow> kr2_Header"
  k_freep :: nat
  k_arena :: arena
  k_errno :: nat

definition kr2_base :: nat where
  "kr2_base = 1"

text \<open>\<^verbatim>\<open>sizeof(Header)\<close>: two pointers, a flag padded to eight bytes, and a \<^verbatim>\<open>size_t\<close>.\<close>

definition kr2_sizeof_Header :: nat where
  "kr2_sizeof_Header = 32"

definition kr2_base_init :: "kr2_state \<Rightarrow> kr2_state" where
  "kr2_base_init s =
     s\<lparr>k_mem := (k_mem s)(kr2_base :=
          (k_mem s kr2_base)\<lparr>k_prev := kr2_base, k_next := kr2_base,
                              k_isFree := False, k_size := 0\<rparr>),
       k_freep := kr2_base\<rparr>"

definition kr2_mm_init :: "kr2_state \<Rightarrow> kr2_state" where
  "kr2_mm_init s = kr2_base_init (s\<lparr>k_arena := mem_init (k_arena s)\<rparr>)"

definition kr2_mm_reset :: "kr2_state \<Rightarrow> kr2_state" where
  "kr2_mm_reset s = kr2_base_init (s\<lparr>k_arena := mem_reset_brk (k_arena s)\<rparr>)"

definition kr2_mm_units :: "nat \<Rightarrow> nat" where
  "kr2_mm_units nbytes =
     size_t (size_t (nbytes + kr2_sizeof_Header - 1) div kr2_sizeof_Header + 1)"

definition kr2_mm_bytes :: "nat \<Rightarrow> nat" where
  "kr2_mm_bytes nunits = size_t (nunits * kr2_sizeof_Header)"

definition kr2_mm_payload :: "nat \<Rightarrow> nat" where
  "kr2_mm_payload bp = bp + 1"

definition kr2_mm_block :: "nat \<Rightarrow> nat" where
  "kr2_mm_block ap = ap - 1"

definition connect_dlinkedlist ::
  "(nat \<Rightarrow> kr2_Header) \<Rightarrow> nat \<Rightarrow> nat \<Rightarrow> (nat \<Rightarrow> kr2_Header)" where
  "connect_dlinkedlist m p n =
     (let m1 = m(p := (m p)\<lparr>k_next := n\<rparr>)
      in m1(n := (m1 n)\<lparr>k_prev := p\<rparr>))"

text \<open>The loop \<^verbatim>\<open>while (p->s.next > p) p = p->s.next;\<close> of \<^verbatim>\<open>mm_free\<close>.\<close>

partial_function (option) kr2_last_block :: "(nat \<Rightarrow> kr2_Header) \<Rightarrow> nat \<Rightarrow> nat option" where
  "kr2_last_block m p =
     (if k_next (m p) > p then kr2_last_block m (k_next (m p)) else Some p)"

text \<open>The two merges at the end of \<^verbatim>\<open>mm_free\<close>, and the new value of \<^verbatim>\<open>freep\<close>.\<close>

definition kr2_merge_upper :: "(nat \<Rightarrow> kr2_Header) \<Rightarrow> nat \<Rightarrow> (nat \<Rightarrow> kr2_Header)" where
  "kr2_merge_upper m bp =
     (if k_isFree (m (k_next (m bp))) \<and> bp + k_size (m bp) = k_next (m bp) then
        let m1 = m(bp := (m bp)\<lparr>k_size := size_t (k_size (m bp) + k_size (m (k_next (m bp))))\<rparr>)
        in connect_dlinkedlist m1 bp (k_next (m1 (k_next (m1 bp))))
      else m)"

definition kr2_merge_lower ::
  "(nat \<Rightarrow> kr2_Header) \<Rightarrow> nat \<Rightarrow> (nat \<Rightarrow> kr2_Header) \<times> nat" where
  "kr2_merge_lower m bp =
     (if k_isFree (m (k_prev (m bp))) \<and> k_prev (m bp) + k_size (m (k_prev (m bp))) = bp then
        let q = k_prev (m bp);
            m1 = m(q := (m q)\<lparr>k_size := size_t (k_size (m q) + k_size (m bp))\<rparr>);
            m2 = connect_dlinkedlist m1 (k_prev (m1 bp)) (k_next (m1 bp))
        in (m2, k_prev (m2 bp))
      else (m, bp))"

definition kr2_mm_free :: "kr2_state \<Rightarrow> nat \<Rightarrow> (fault + kr2_state) option" where
  "kr2_mm_free s ap =
     (if ap = NULL then Some (Inr s)
      else
        let bp = kr2_mm_block ap in
        if \<not> (k_size (k_mem s bp) > 0 \<and>
                kr2_mm_bytes (k_size (k_mem s bp)) \<le> mem_heapsize (k_arena s))
        then Some (Inl AssertFailed)
        else
          Option.bind
            (if k_next (k_mem s bp) = NULL then
               Option.bind (kr2_last_block (k_mem s) (k_freep s))
                 (\<lambda>p. let n = k_next (k_mem s p)
                      in Some (connect_dlinkedlist (connect_dlinkedlist (k_mem s) p bp) bp n))
             else Some (k_mem s))
            (\<lambda>m1.
               let m2 = m1(bp := (m1 bp)\<lparr>k_isFree := True\<rparr>);
                   m3 = kr2_merge_upper m2 bp;
                   (m4, bp') = kr2_merge_lower m3 bp
               in Some (Inr (s\<lparr>k_mem := m4, k_freep := k_prev (m4 bp')\<rparr>))))"

definition kr2_morecore :: "kr2_state \<Rightarrow> nat \<Rightarrow> (fault + kr2_state \<times> nat) option" where
  "kr2_morecore s nu0 =
     (let nalloc = mem_pagesize (k_arena s) div kr2_sizeof_Header;
          nu = (if nu0 < nalloc then nalloc else nu0);
          nbytes = kr2_mm_bytes nu
      in case mem_sbrk (k_arena s) nbytes of
           (a', None) \<Rightarrow> Some (Inr (s, NULL))
         | (a', Some p) \<Rightarrow>
             let bp = p div kr2_sizeof_Header;
                 m = (k_mem s)(bp := (k_mem s bp)\<lparr>k_size := nu, k_prev := NULL, k_next := NULL\<rparr>)
             in (case kr2_mm_free (s\<lparr>k_arena := a', k_mem := m\<rparr>) (bp + 1) of
                   None \<Rightarrow> None
                 | Some (Inl e) \<Rightarrow> Some (Inl e)
                 | Some (Inr s2) \<Rightarrow> Some (Inr (s2, k_freep s2))))"

text \<open>The body of \<^verbatim>\<open>if (p->s.size >= nunits && p->s.isFree)\<close> in \<^verbatim>\<open>mm_malloc\<close>.\<close>

definition kr2_take :: "kr2_state \<Rightarrow> nat \<Rightarrow> nat \<Rightarrow> nat \<Rightarrow> kr2_state \<times> nat" where
  "kr2_take s prev_p p nunits =
     (if k_size (k_mem s p) = nunits then
        (s\<lparr>k_mem := (k_mem s)(p := (k_mem s p)\<lparr>k_isFree := False\<rparr>), k_freep := prev_p\<rparr>,
         kr2_mm_payload p)
      else
        let m1 = (k_mem s)(p := (k_mem s p)\<lparr>k_size := k_size (k_mem s p) - nunits\<rparr>);
            old_p = p;
            nxt = k_next (m1 p);
            p' = p + k_size (m1 p);
            m2 = m1(p' := (m1 p')\<lparr>k_size := nunits\<rparr>);
            m3 = connect_dlinkedlist m2 old_p p';
            m4 = connect_dlinkedlist m3 p' nxt;
            m5 = m4(p' := (m4 p')\<lparr>k_isFree := False\<rparr>)
        in (s\<lparr>k_mem := m5, k_freep := prev_p\<rparr>, kr2_mm_payload p'))"

partial_function (option) kr2_malloc_loop ::
  "kr2_state \<Rightarrow> nat \<Rightarrow> nat \<Rightarrow> nat \<Rightarrow> (fault + kr2_state \<times> nat) option" where
  "kr2_malloc_loop s prev_p p nunits =
     (if k_size (k_mem s p) \<ge> nunits \<and> k_isFree (k_mem s p) then
        Some (Inr (kr2_take s prev_p p nunits))
      else if p = k_freep s then
        (case kr2_morecore s nunits of
           None \<Rightarrow> None
         | Some (Inl e) \<Rightarrow> Some (Inl e)
         | Some (Inr (s', q)) \<Rightarrow>
             if q = NULL then Some (Inr (s'\<lparr>k_errno := ENOMEM\<rparr>, NULL))
             else kr2_malloc_loop s' q (k_next (k_mem s' q)) nunits)
      else kr2_malloc_loop s p (k_next (k_mem s p)) nunits)"

definition kr2_mm_malloc :: "kr2_state \<Rightarrow> nat \<Rightarrow> (fault + kr2_state \<times> nat) option" where
  "kr2_mm_malloc s nbytes =
     (let s0 = (if k_freep s = NULL then kr2_mm_init s else s);
          prev_p = k_freep s0;
          nunits = kr2_mm_units nbytes
      in kr2_malloc_loop s0 prev_p (k_next (k_mem s0 prev_p)) nunits)"

text \<open>
  \<^verbatim>\<open>memcpy\<close> on cells: the whole cells are copied as they are, and of the last, partial
  cell the first \<open>r\<close> bytes, field by field (\<^verbatim>\<open>prev\<close> at offset 0, \<^verbatim>\<open>next\<close> at 8, the flag
  at 16, \<^verbatim>\<open>size\<close> at 24).
\<close>

definition kr2_blend :: "nat \<Rightarrow> kr2_Header \<Rightarrow> kr2_Header \<Rightarrow> kr2_Header" where
  "kr2_blend r src dst =
     \<lparr>k_prev = mix_bytes (min 8 r) (k_prev src) (k_prev dst),
      k_next = mix_bytes (min 8 (r - 8)) (k_next src) (k_next dst),
      k_isFree = (if r > 16 then k_isFree src else k_isFree dst),
      k_size = mix_bytes (min 8 (r - 24)) (k_size src) (k_size dst)\<rparr>"

definition kr2_memcpy ::
  "(nat \<Rightarrow> kr2_Header) \<Rightarrow> nat \<Rightarrow> nat \<Rightarrow> nat \<Rightarrow> (nat \<Rightarrow> kr2_Header)" where
  "kr2_memcpy m dst src n =
     (\<lambda>a. if dst \<le> a \<and> a < dst + n div kr2_sizeof_Header then m (src + (a - dst))
          else if a = dst + n div kr2_sizeof_Header \<and> n mod kr2_sizeof_Header > 0
          then kr2_blend (n mod kr2_sizeof_Header) (m (src + n div kr2_sizeof_Header)) (m a)
          else m a)"

definition kr2_mm_realloc ::
  "kr2_state \<Rightarrow> nat \<Rightarrow> nat \<Rightarrow> (fault + kr2_state \<times> nat) option" where
  "kr2_mm_realloc s ap newsize =
     (if ap = NULL then kr2_mm_malloc s newsize
      else
        let bp = kr2_mm_block ap in
        if newsize > 0 \<and> k_size (k_mem s bp) \<ge> kr2_mm_units newsize then Some (Inr (s, ap))
        else
          (case kr2_mm_malloc s newsize of
             None \<Rightarrow> None
           | Some (Inl e) \<Rightarrow> Some (Inl e)
           | Some (Inr (s1, newap)) \<Rightarrow>
               if newap = NULL then Some (Inr (s1, NULL))
               else
                 let oldsize = kr2_mm_bytes (size_t (k_size (k_mem s1 bp) + 2 ^ 64 - 1));
                     s2 = s1\<lparr>k_mem := kr2_memcpy (k_mem s1) newap ap
                                         (if oldsize < newsize then oldsize else newsize)\<rparr>
                 in (case kr2_mm_free s2 ap of
                       None \<Rightarrow> None
                     | Some (Inl e) \<Rightarrow> Some (Inl e)
                     | Some (Inr s3) \<Rightarrow> Some (Inr (s3, newap)))))"

partial_function (option) kr2_getfree_loop ::
  "(nat \<Rightarrow> kr2_Header) \<Rightarrow> nat \<Rightarrow> nat \<Rightarrow> nat option" where
  "kr2_getfree_loop m tmp res =
     (if k_next (m tmp) > tmp
      then kr2_getfree_loop m (k_next (m tmp)) (size_t (res + k_size (m (k_next (m tmp)))))
      else Some res)"

definition kr2_mm_getfree :: "kr2_state \<Rightarrow> nat option" where
  "kr2_mm_getfree s =
     (if k_freep s = NULL then Some 0
      else Option.bind
             (kr2_getfree_loop (k_mem s) (k_freep s) (k_size (k_mem s (k_freep s))))
             (\<lambda>res. Some (kr2_mm_bytes res)))"

section \<open>The allocator of mm_heap_dll.c\<close>

text \<open>
  Only the free blocks are on the circular list. A block carries a second header in its
  last cell (its tail), whose \<^verbatim>\<open>ptr\<close> is the block before it on the list; the \<^verbatim>\<open>ptr\<close>
  of the first cell is the block after it. Both are \<^verbatim>\<open>NULL\<close> in an allocated block.
  The static \<^verbatim>\<open>base[2]\<close> is a block of two cells, at cells \<open>1\<close> and \<open>2\<close>.
\<close>

record dll_Header =
  d_ptr :: nat
  d_size :: nat

record dll_state =
  d_mem :: "nat \<Rightarrow> dll_Header"
  d_freep :: nat
  d_arena :: arena
  d_errno :: nat

definition dll_base :: nat where
  "dll_base = 1"

text \<open>\<^verbatim>\<open>sizeof(Header)\<close>: a pointer and a \<^verbatim>\<open>size_t\<close>, with a 16-byte \<^verbatim>\<open>max_align_t\<close>.\<close>

definition dll_sizeof_Header :: nat where
  "dll_sizeof_Header = 16"

definition dll_base_init :: "dll_state \<Rightarrow> dll_state" where
  "dll_base_init s =
     (let m = d_mem s;
          m1 = m(dll_base + 1 := (m (dll_base + 1))\<lparr>d_ptr := dll_base\<rparr>);
          m2 = m1(dll_base := (m1 dll_base)\<lparr>d_ptr := dll_base\<rparr>);
          m3 = m2(dll_base + 1 := (m2 (dll_base + 1))\<lparr>d_size := 2\<rparr>);
          m4 = m3(dll_base := (m3 dll_base)\<lparr>d_size := 2\<rparr>)
      in s\<lparr>d_mem := m4, d_freep := dll_base\<rparr>)"

definition dll_mm_init :: "dll_state \<Rightarrow> dll_state" where
  "dll_mm_init s = dll_base_init (s\<lparr>d_arena := mem_init (d_arena s)\<rparr>)"

definition dll_mm_reset :: "dll_state \<Rightarrow> dll_state" where
  "dll_mm_reset s = dll_base_init (s\<lparr>d_arena := mem_reset_brk (d_arena s)\<rparr>)"

definition dll_mm_units :: "nat \<Rightarrow> nat" where
  "dll_mm_units nbytes =
     size_t (size_t (nbytes + dll_sizeof_Header - 1) div dll_sizeof_Header + 2)"

definition dll_mm_bytes :: "nat \<Rightarrow> nat" where
  "dll_mm_bytes nunits = size_t (nunits * dll_sizeof_Header)"

definition dll_mm_payload :: "nat \<Rightarrow> nat" where
  "dll_mm_payload bp = bp + 1"

definition dll_mm_block :: "nat \<Rightarrow> nat" where
  "dll_mm_block ap = ap - 1"

definition mm_tail :: "(nat \<Rightarrow> dll_Header) \<Rightarrow> nat \<Rightarrow> nat" where
  "mm_tail m bp = bp + d_size (m bp) - 1"

definition link_header :: "(nat \<Rightarrow> dll_Header) \<Rightarrow> nat \<Rightarrow> nat \<Rightarrow> (nat \<Rightarrow> dll_Header)" where
  "link_header m a b =
     (let m1 = m(a := (m a)\<lparr>d_ptr := b\<rparr>);
          t = mm_tail m1 b
      in m1(t := (m1 t)\<lparr>d_ptr := a\<rparr>))"

definition unlink_header :: "(nat \<Rightarrow> dll_Header) \<Rightarrow> nat \<Rightarrow> (nat \<Rightarrow> dll_Header)" where
  "unlink_header m a =
     (let prev = d_ptr (m (mm_tail m a));
          nxt = d_ptr (m a)
      in link_header m prev nxt)"

definition coalesce :: "(nat \<Rightarrow> dll_Header) \<Rightarrow> nat \<Rightarrow> nat \<Rightarrow> (nat \<Rightarrow> dll_Header)" where
  "coalesce m lower upper =
     (let m1 = unlink_header m upper;
          prev = d_ptr (m1 (mm_tail m1 lower));
          m2 = m1(lower := (m1 lower)\<lparr>d_size := size_t (d_size (m1 lower) + d_size (m1 upper))\<rparr>);
          t = mm_tail m2 lower;
          m3 = m2(t := (m2 t)\<lparr>d_size := d_size (m2 lower)\<rparr>);
          t' = mm_tail m3 lower
      in m3(t' := (m3 t')\<lparr>d_ptr := prev\<rparr>))"

definition dll_mm_free :: "dll_state \<Rightarrow> nat \<Rightarrow> fault + dll_state" where
  "dll_mm_free s ap =
     (if ap = NULL then Inr s
      else
        let bp = dll_mm_block ap in
        if \<not> (d_size (d_mem s bp) > 0 \<and>
                dll_mm_bytes (d_size (d_mem s bp)) \<le> mem_heapsize (d_arena s))
        then Inl AssertFailed
        else
          let p = d_freep s;
              m1 = link_header (d_mem s) bp (d_ptr (d_mem s p));
              m2 = link_header m1 p bp;
              next_neighbor_header = bp + d_size (m2 bp);
              (m3, f3) =
                (if next_neighbor_header * dll_sizeof_Header < mem_heap_hi (d_arena s) \<and>
                    d_ptr (m2 next_neighbor_header) \<noteq> NULL
                 then let m' = coalesce m2 bp next_neighbor_header
                      in (m', d_ptr (m' (mm_tail m' bp)))
                 else (m2, d_freep s));
              prev_neighbor_tail = bp - 1;
              (m4, f4) =
                (if prev_neighbor_tail * dll_sizeof_Header > mem_heap_lo (d_arena s) \<and>
                    d_ptr (m3 prev_neighbor_tail) \<noteq> NULL
                 then let prev_neighbor_header = d_ptr (m3 (d_ptr (m3 prev_neighbor_tail)));
                          m' = coalesce m3 prev_neighbor_header bp
                      in (m', d_ptr (m' (mm_tail m' prev_neighbor_header)))
                 else (m3, f3))
          in Inr (s\<lparr>d_mem := m4, d_freep := f4\<rparr>))"

definition dll_morecore :: "dll_state \<Rightarrow> nat \<Rightarrow> fault + dll_state \<times> nat" where
  "dll_morecore s nu0 =
     (let nalloc = mem_pagesize (d_arena s) div dll_sizeof_Header;
          nu = (if nu0 < nalloc then nalloc else nu0);
          nbytes = dll_mm_bytes nu
      in case mem_sbrk (d_arena s) nbytes of
           (a', None) \<Rightarrow> Inr (s, NULL)
         | (a', Some p) \<Rightarrow>
             let bp = p div dll_sizeof_Header;
                 m = (d_mem s)(bp := (d_mem s bp)\<lparr>d_size := nu\<rparr>)
             in (case dll_mm_free (s\<lparr>d_arena := a', d_mem := m\<rparr>) (bp + 1) of
                   Inl e \<Rightarrow> Inl e
                 | Inr s2 \<Rightarrow> Inr (s2, d_freep s2)))"

text \<open>
  The body of \<^verbatim>\<open>if (p->s.size == nunits || p->s.size >= nunits + 2)\<close> in
  \<^verbatim>\<open>mm_malloc\<close>.
\<close>

definition dll_take :: "dll_state \<Rightarrow> nat \<Rightarrow> nat \<Rightarrow> nat \<Rightarrow> dll_state \<times> nat" where
  "dll_take s prevp p nunits =
     (let m = d_mem s;
          (m1, p') =
            (if d_size (m p) = nunits then (link_header m prevp (d_ptr (m p)), p)
             else
               let ma = m(p := (m p)\<lparr>d_size := d_size (m p) - nunits\<rparr>);
                   t = mm_tail ma p;
                   mb = ma(t := (ma t)\<lparr>d_size := d_size (ma p)\<rparr>);
                   t' = mm_tail mb p;
                   mc = mb(t' := (mb t')\<lparr>d_ptr := prevp\<rparr>);
                   q = p + d_size (mc p)
               in (mc(q := (mc q)\<lparr>d_size := nunits\<rparr>), q));
          m2 = m1(p' := (m1 p')\<lparr>d_ptr := NULL\<rparr>);
          t2 = mm_tail m2 p';
          m3 = m2(t2 := (m2 t2)\<lparr>d_ptr := NULL\<rparr>)
      in (s\<lparr>d_mem := m3, d_freep := prevp\<rparr>, dll_mm_payload p'))"

partial_function (option) dll_malloc_loop ::
  "dll_state \<Rightarrow> nat \<Rightarrow> nat \<Rightarrow> nat \<Rightarrow> (fault + dll_state \<times> nat) option" where
  "dll_malloc_loop s prevp p nunits =
     (if d_size (d_mem s p) = nunits \<or> d_size (d_mem s p) \<ge> size_t (nunits + 2) then
        Some (Inr (dll_take s prevp p nunits))
      else if p = d_freep s then
        (case dll_morecore s nunits of
           Inl e \<Rightarrow> Some (Inl e)
         | Inr (s', q) \<Rightarrow>
             if q = NULL then Some (Inr (s'\<lparr>d_errno := ENOMEM\<rparr>, NULL))
             else dll_malloc_loop s' q (d_ptr (d_mem s' q)) nunits)
      else dll_malloc_loop s p (d_ptr (d_mem s p)) nunits)"

definition dll_mm_malloc :: "dll_state \<Rightarrow> nat \<Rightarrow> (fault + dll_state \<times> nat) option" where
  "dll_mm_malloc s nbytes =
     (let s0 = (if d_freep s = NULL then dll_mm_init s else s);
          prevp = d_freep s0;
          nunits = dll_mm_units nbytes
      in dll_malloc_loop s0 prevp (d_ptr (d_mem s0 prevp)) nunits)"

text \<open>\<^verbatim>\<open>memcpy\<close> on cells, as above (\<^verbatim>\<open>ptr\<close> at offset 0, \<^verbatim>\<open>size\<close> at 8).\<close>

definition dll_blend :: "nat \<Rightarrow> dll_Header \<Rightarrow> dll_Header \<Rightarrow> dll_Header" where
  "dll_blend r src dst =
     \<lparr>d_ptr = mix_bytes (min 8 r) (d_ptr src) (d_ptr dst),
      d_size = mix_bytes (min 8 (r - 8)) (d_size src) (d_size dst)\<rparr>"

definition dll_memcpy ::
  "(nat \<Rightarrow> dll_Header) \<Rightarrow> nat \<Rightarrow> nat \<Rightarrow> nat \<Rightarrow> (nat \<Rightarrow> dll_Header)" where
  "dll_memcpy m dst src n =
     (\<lambda>a. if dst \<le> a \<and> a < dst + n div dll_sizeof_Header then m (src + (a - dst))
          else if a = dst + n div dll_sizeof_Header \<and> n mod dll_sizeof_Header > 0
          then dll_blend (n mod dll_sizeof_Header) (m (src + n div dll_sizeof_Header)) (m a)
          else m a)"

definition dll_mm_realloc ::
  "dll_state \<Rightarrow> nat \<Rightarrow> nat \<Rightarrow> (fault + dll_state \<times> nat) option" where
  "dll_mm_realloc s ap newsize =
     (if ap = NULL then dll_mm_malloc s newsize
      else
        let bp = dll_mm_block ap in
        if newsize > 0 \<and> d_size (d_mem s bp) \<ge> dll_mm_units newsize then Some (Inr (s, ap))
        else
          (case dll_mm_malloc s newsize of
             None \<Rightarrow> None
           | Some (Inl e) \<Rightarrow> Some (Inl e)
           | Some (Inr (s1, newap)) \<Rightarrow>
               if newap = NULL then Some (Inr (s1, NULL))
               else
                 let oldsize = dll_mm_bytes (size_t (d_size (d_mem s1 bp) + 2 ^ 64 - 1));
                     s2 = s1\<lparr>d_mem := dll_memcpy (d_mem s1) newap ap
                                         (if oldsize < newsize then oldsize else newsize)\<rparr>
                 in (case dll_mm_free s2 ap of
                       Inl e \<Rightarrow> Some (Inl e)
                     | Inr s3 \<Rightarrow> Some (Inr (s3, newap)))))"

partial_function (option) dll_getfree_loop ::
  "(nat \<Rightarrow> dll_Header) \<Rightarrow> nat \<Rightarrow> nat \<Rightarrow> nat option" where
  "dll_getfree_loop m tmp res =
     (if d_ptr (m tmp) > tmp
      then dll_getfree_loop m (d_ptr (m tmp)) (size_t (res + d_size (m (d_ptr (m tmp)))))
      else Some res)"

definition dll_mm_getfree :: "dll_state \<Rightarrow> nat option" where
  "dll_mm_getfree s =
     (if d_freep s = NULL then Some 0
      else Option.bind
             (dll_getfree_loop (d_mem s) (d_freep s) (d_size (d_mem s (d_freep s))))
             (\<lambda>res. Some (dll_mm_bytes res)))"

section \<open>Concrete states\<close>

text \<open>
  A fresh process: \<^verbatim>\<open>freep\<close> is \<^verbatim>\<open>NULL\<close>, the memory is zeroed, the page size is 4096
  and the arena, which starts at byte address 64, can hold one page.
\<close>

definition arena0 :: arena where
  "arena0 = \<lparr>heap_lo = 64, mem_brk = 0, mem_max = 4096, pagesz = 4096\<rparr>"

definition arena1 :: arena where
  "arena1 = \<lparr>heap_lo = 64, mem_brk = 4096, mem_max = 4096, pagesz = 4096\<rparr>"

definition kr2_hz :: kr2_Header where
  "kr2_hz = \<lparr>k_prev = 0, k_next = 0, k_isFree = False, k_size = 0\<rparr>"

definition kr2_s0 :: kr2_state where
  "kr2_s0 = \<lparr>k_mem = (\<lambda>_. kr2_hz), k_freep = NULL, k_arena = arena0, k_errno = 0\<rparr>"

text \<open>After \<^verbatim>\<open>mm_malloc(16)\<close> in \<open>kr2_s0\<close>: a free block of 126 cells at cell 2, the
  allocated block of 2 cells at cell 128.\<close>

definition kr2_s1 :: kr2_state where
  "kr2_s1 =
     \<lparr>k_mem = (\<lambda>a. if a = 1 then \<lparr>k_prev = 128, k_next = 2, k_isFree = False, k_size = 0\<rparr>
                 else if a = 2 then \<lparr>k_prev = 1, k_next = 128, k_isFree = True, k_size = 126\<rparr>
                 else if a = 128 then \<lparr>k_prev = 2, k_next = 1, k_isFree = False, k_size = 2\<rparr>
                 else kr2_hz),
      k_freep = 1, k_arena = arena1, k_errno = 0\<rparr>"

text \<open>After \<^verbatim>\<open>mm_realloc(p, 0)\<close> in \<open>kr2_s1\<close>, for the pointer \<open>p = 129\<close> of the block at
  cell 128: a new block of one cell at cell 127, and the old block is free.\<close>

definition kr2_s2 :: kr2_state where
  "kr2_s2 =
     \<lparr>k_mem = (\<lambda>a. if a = 1 then \<lparr>k_prev = 128, k_next = 2, k_isFree = False, k_size = 0\<rparr>
                 else if a = 2 then \<lparr>k_prev = 1, k_next = 127, k_isFree = True, k_size = 125\<rparr>
                 else if a = 127 then \<lparr>k_prev = 2, k_next = 128, k_isFree = False, k_size = 1\<rparr>
                 else if a = 128 then \<lparr>k_prev = 127, k_next = 1, k_isFree = True, k_size = 2\<rparr>
                 else kr2_hz),
      k_freep = 127, k_arena = arena1, k_errno = 0\<rparr>"

text \<open>After \<^verbatim>\<open>mm_malloc(0)\<close> in \<open>kr2_s0\<close>: the allocated block at cell 129 is one cell.\<close>

definition kr2_s3 :: kr2_state where
  "kr2_s3 =
     \<lparr>k_mem = (\<lambda>a. if a = 1 then \<lparr>k_prev = 129, k_next = 2, k_isFree = False, k_size = 0\<rparr>
                 else if a = 2 then \<lparr>k_prev = 1, k_next = 129, k_isFree = True, k_size = 127\<rparr>
                 else if a = 129 then \<lparr>k_prev = 2, k_next = 1, k_isFree = False, k_size = 1\<rparr>
                 else kr2_hz),
      k_freep = 1, k_arena = arena1, k_errno = 0\<rparr>"

text \<open>After \<^verbatim>\<open>mm_free\<close> of that block in \<open>kr2_s3\<close>: it has gone back into the free block at
  cell 2, which is the whole arena again.\<close>

definition kr2_s5 :: kr2_state where
  "kr2_s5 =
     \<lparr>k_mem = (\<lambda>a. if a = 1 then \<lparr>k_prev = 2, k_next = 2, k_isFree = False, k_size = 0\<rparr>
                 else if a = 2 then \<lparr>k_prev = 1, k_next = 1, k_isFree = True, k_size = 128\<rparr>
                 else if a = 129 then \<lparr>k_prev = 2, k_next = 1, k_isFree = True, k_size = 1\<rparr>
                 else kr2_hz),
      k_freep = 1, k_arena = arena1, k_errno = 0\<rparr>"

text \<open>After \<^verbatim>\<open>mm_malloc(4032)\<close> in \<open>kr2_s0\<close>: the free remainder at cell 2 is one cell.\<close>

definition kr2_s4 :: kr2_state where
  "kr2_s4 =
     \<lparr>k_mem = (\<lambda>a. if a = 1 then \<lparr>k_prev = 3, k_next = 2, k_isFree = False, k_size = 0\<rparr>
                 else if a = 2 then \<lparr>k_prev = 1, k_next = 3, k_isFree = True, k_size = 1\<rparr>
                 else if a = 3 then \<lparr>k_prev = 2, k_next = 1, k_isFree = False, k_size = 127\<rparr>
                 else kr2_hz),
      k_freep = 1, k_arena = arena1, k_errno = 0\<rparr>"

definition dll_hz :: dll_Header where
  "dll_hz = \<lparr>d_ptr = 0, d_size = 0\<rparr>"

definition dll_s0 :: dll_state where
  "dll_s0 = \<lparr>d_mem = (\<lambda>_. dll_hz), d_freep = NULL, d_arena = arena0, d_errno = 0\<rparr>"

text \<open>After \<^verbatim>\<open>mm_init()\<close> in \<open>dll_s0\<close>.\<close>

definition dll_si :: dll_state where
  "dll_si =
     \<lparr>d_mem = (\<lambda>a. if a = 1 then \<lparr>d_ptr = 1, d_size = 2\<rparr>
                 else if a = 2 then \<lparr>d_ptr = 1, d_size = 2\<rparr>
                 else dll_hz),
      d_freep = 1, d_arena = arena0, d_errno = 0\<rparr>"

text \<open>After \<^verbatim>\<open>mm_malloc(16)\<close> in \<open>dll_s0\<close>: a free block of 253 cells at cell 4 (its tail
  at cell 256), the allocated block of 3 cells at cell 257.\<close>

definition dll_s1 :: dll_state where
  "dll_s1 =
     \<lparr>d_mem = (\<lambda>a. if a = 1 then \<lparr>d_ptr = 4, d_size = 2\<rparr>
                 else if a = 2 then \<lparr>d_ptr = 4, d_size = 2\<rparr>
                 else if a = 4 then \<lparr>d_ptr = 1, d_size = 253\<rparr>
                 else if a = 256 then \<lparr>d_ptr = 1, d_size = 253\<rparr>
                 else if a = 257 then \<lparr>d_ptr = NULL, d_size = 3\<rparr>
                 else dll_hz),
      d_freep = 1, d_arena = arena1, d_errno = 0\<rparr>"

text \<open>After \<^verbatim>\<open>mm_malloc(0)\<close> in \<open>dll_s0\<close>: the block handed out is \<^verbatim>\<open>base\<close> itself.\<close>

definition dll_s3 :: dll_state where
  "dll_s3 =
     \<lparr>d_mem = (\<lambda>a. if a = 1 then \<lparr>d_ptr = NULL, d_size = 2\<rparr>
                 else if a = 2 then \<lparr>d_ptr = NULL, d_size = 2\<rparr>
                 else dll_hz),
      d_freep = 1, d_arena = arena0, d_errno = 0\<rparr>"

text \<open>After \<^verbatim>\<open>mm_malloc(4032)\<close> in \<open>dll_s0\<close>: the free remainder at cell 4 is two cells,
  a header and a tail.\<close>

definition dll_s4 :: dll_state where
  "dll_s4 =
     \<lparr>d_mem = (\<lambda>a. if a = 1 then \<lparr>d_ptr = 4, d_size = 2\<rparr>
                 else if a = 2 then \<lparr>d_ptr = 4, d_size = 2\<rparr>
                 else if a = 4 then \<lparr>d_ptr = 1, d_size = 2\<rparr>
                 else if a = 5 then \<lparr>d_ptr = 1, d_size = 2\<rparr>
                 else if a = 6 then \<lparr>d_ptr = NULL, d_size = 254\<rparr>
                 else dll_hz),
      d_freep = 1, d_arena = arena1, d_errno = 0\<rparr>"

text \<open>After \<^verbatim>\<open>mm_realloc(p, 0)\<close> in \<open>dll_s1\<close>, for the pointer \<open>p = 258\<close> of the block at
  cell 257: a new block of two cells at cell 255, and the old block is on the free list.\<close>

definition dll_s2 :: dll_state where
  "dll_s2 =
     \<lparr>d_mem = (\<lambda>a. if a = 1 then \<lparr>d_ptr = 257, d_size = 2\<rparr>
                 else if a = 2 then \<lparr>d_ptr = 4, d_size = 2\<rparr>
                 else if a = 4 then \<lparr>d_ptr = 1, d_size = 251\<rparr>
                 else if a = 254 then \<lparr>d_ptr = 257, d_size = 251\<rparr>
                 else if a = 255 then \<lparr>d_ptr = NULL, d_size = 2\<rparr>
                 else if a = 256 then \<lparr>d_ptr = NULL, d_size = 253\<rparr>
                 else if a = 257 then \<lparr>d_ptr = 4, d_size = 3\<rparr>
                 else if a = 259 then \<lparr>d_ptr = 1, d_size = 0\<rparr>
                 else dll_hz),
      d_freep = 1, d_arena = arena1, d_errno = 0\<rparr>"

section \<open>Walking the list\<close>

text \<open>The block reached from \<^verbatim>\<open>freep\<close> after \<open>i\<close> steps along the list.\<close>

definition kr2_walk :: "kr2_state \<Rightarrow> nat \<Rightarrow> nat" where
  "kr2_walk s i = ((\<lambda>p. k_next (k_mem s p)) ^^ i) (k_freep s)"

definition dll_walk :: "dll_state \<Rightarrow> nat \<Rightarrow> nat" where
  "dll_walk s i = ((\<lambda>p. d_ptr (d_mem s p)) ^^ i) (d_freep s)"

section \<open>Well-formed states of mm_heap_kr2.c\<close>

text \<open>
  What the arena has to satisfy: it starts and ends on a cell boundary, lies within its
  capacity, and all its addresses and the page size are values of \<^verbatim>\<open>size_t\<close>.
\<close>

definition arena_ok :: "nat \<Rightarrow> arena \<Rightarrow> bool" where
  "arena_ok H a =
     (H dvd heap_lo a \<and> H dvd mem_brk a \<and> mem_brk a \<le> mem_max a \<and>
      heap_lo a + mem_max a < 2 ^ 64 \<and> pagesz a < 2 ^ 64)"

text \<open>The first cell of the arena, and the first cell above it.\<close>

definition kr2_lo :: "kr2_state \<Rightarrow> nat" where
  "kr2_lo s = heap_lo (k_arena s) div kr2_sizeof_Header"

definition kr2_top :: "kr2_state \<Rightarrow> nat" where
  "kr2_top s = kr2_lo s + mem_brk (k_arena s) div kr2_sizeof_Header"

text \<open>
  \<open>kr2_seg m pv a bs e\<close>: the blocks \<open>bs\<close> lie one after the other from cell \<open>a\<close> to cell
  \<open>e\<close>, each of at least one cell, and they are linked in this order behind \<open>pv\<close>.
\<close>

fun kr2_seg :: "(nat \<Rightarrow> kr2_Header) \<Rightarrow> nat \<Rightarrow> nat \<Rightarrow> nat list \<Rightarrow> nat \<Rightarrow> bool" where
  "kr2_seg m pv a [] e = (a = e)"
| "kr2_seg m pv a (b # bs) e =
     (b = a \<and> 0 < k_size (m b) \<and> k_next (m pv) = b \<and> k_prev (m b) = pv \<and>
      kr2_seg m b (a + k_size (m b)) bs e)"

text \<open>No two blocks that follow each other are both free.\<close>

fun kr2_no_adjacent :: "(nat \<Rightarrow> kr2_Header) \<Rightarrow> nat list \<Rightarrow> bool" where
  "kr2_no_adjacent m (b # c # bs) =
     (\<not> (k_isFree (m b) \<and> k_isFree (m c)) \<and> kr2_no_adjacent m (c # bs))"
| "kr2_no_adjacent m [b] = True"
| "kr2_no_adjacent m [] = True"

text \<open>
  \<open>kr2_ring m lo bs hi\<close>: the blocks \<open>bs\<close> tile the arena from \<open>lo\<close> to \<open>hi\<close> and form,
  with \<^verbatim>\<open>base\<close> before the first and after the last, one doubly linked ring; \<^verbatim>\<open>base\<close>
  is not free and has size 0.
\<close>

definition kr2_ring :: "(nat \<Rightarrow> kr2_Header) \<Rightarrow> nat \<Rightarrow> nat list \<Rightarrow> nat \<Rightarrow> bool" where
  "kr2_ring m lo bs hi =
     (kr2_base < lo \<and> hi < 2 ^ 59 \<and>
      kr2_seg m kr2_base lo bs hi \<and>
      k_next (m (last (kr2_base # bs))) = kr2_base \<and>
      k_prev (m kr2_base) = last (kr2_base # bs) \<and>
      \<not> k_isFree (m kr2_base) \<and> k_size (m kr2_base) = 0)"

text \<open>The well-formed states, with the list of their blocks in address order.\<close>

definition kr2_inv :: "kr2_state \<Rightarrow> nat list \<Rightarrow> bool" where
  "kr2_inv s bs =
     (arena_ok kr2_sizeof_Header (k_arena s) \<and>
      2 * kr2_sizeof_Header \<le> heap_lo (k_arena s) \<and>
      kr2_ring (k_mem s) (kr2_lo s) bs (kr2_top s) \<and>
      k_freep s \<in> set (kr2_base # bs) \<and>
      kr2_no_adjacent (k_mem s) bs)"

text \<open>
  \<open>kr2_keeps m bs m' bs'\<close>: every allocated block of \<open>bs\<close> is an allocated block of
  \<open>bs'\<close> of the same size, with the same payload.
\<close>

definition kr2_keeps ::
  "(nat \<Rightarrow> kr2_Header) \<Rightarrow> nat list \<Rightarrow> (nat \<Rightarrow> kr2_Header) \<Rightarrow> nat list \<Rightarrow> bool" where
  "kr2_keeps m bs m' bs' =
     (\<forall>b\<in>set bs. \<not> k_isFree (m b) \<longrightarrow>
         b \<in> set bs' \<and> \<not> k_isFree (m' b) \<and> k_size (m' b) = k_size (m b) \<and>
         (\<forall>i. 0 < i \<and> i < k_size (m b) \<longrightarrow> m' (b + i) = m (b + i)))"

text \<open>Merging the block after \<open>x\<close> on the list into \<open>x\<close>, as both merges of \<^verbatim>\<open>mm_free\<close> do.\<close>

definition kr2_absorb :: "(nat \<Rightarrow> kr2_Header) \<Rightarrow> nat \<Rightarrow> (nat \<Rightarrow> kr2_Header)" where
  "kr2_absorb m x =
     (let m1 = m(x := (m x)\<lparr>k_size := size_t (k_size (m x) + k_size (m (k_next (m x))))\<rparr>)
      in connect_dlinkedlist m1 x (k_next (m1 (k_next (m1 x)))))"

text \<open>
  The blocks after \<^verbatim>\<open>mm_free\<close> of the block \<open>b\<close> that lies between the blocks \<open>xs\<close> and
  the blocks \<open>ys\<close>: \<open>b\<close> goes into the block before it when that one is free, and takes
  up the block after it when that one is free.
\<close>

definition kr2_free_blocks ::
  "(nat \<Rightarrow> kr2_Header) \<Rightarrow> nat list \<Rightarrow> nat \<Rightarrow> nat list \<Rightarrow> nat list" where
  "kr2_free_blocks m xs b ys =
     (if xs \<noteq> [] \<and> k_isFree (m (last xs)) then xs else xs @ [b]) @
     (if ys \<noteq> [] \<and> k_isFree (m (hd ys)) then tl ys else ys)"

text \<open>The memory after the two merges of \<^verbatim>\<open>mm_free\<close> for the block \<open>b\<close>, and the block
  that \<open>b\<close> has become part of.\<close>

definition kr2_free_mem :: "(nat \<Rightarrow> kr2_Header) \<Rightarrow> nat \<Rightarrow> (nat \<Rightarrow> kr2_Header) \<times> nat" where
  "kr2_free_mem m b =
     kr2_merge_lower (kr2_merge_upper (m(b := (m b)\<lparr>k_isFree := True\<rparr>)) b) b"

text \<open>
  What \<^verbatim>\<open>mm_malloc\<close> for \<open>nunits\<close> cells has to deliver in a state \<open>s\<close> with the blocks \<open>bs\<close>,
  for its result \<open>y\<close>: either \<^verbatim>\<open>NULL\<close> and nothing but \<^verbatim>\<open>errno\<close> has changed, or the payload
  of an allocated block of \<open>nunits\<close> cells that was not allocated before, in a well-formed
  state that keeps the blocks allocated before.
\<close>

definition kr2_malloc_post :: "kr2_state \<Rightarrow> nat list \<Rightarrow> nat \<Rightarrow> kr2_state \<times> nat \<Rightarrow> bool" where
  "kr2_malloc_post s bs nunits y =
     (if snd y = NULL then fst y = s\<lparr>k_errno := ENOMEM\<rparr>
      else \<exists>bs'. kr2_inv (fst y) bs' \<and> kr2_mm_block (snd y) \<in> set bs' \<and>
             \<not> k_isFree (k_mem (fst y) (kr2_mm_block (snd y))) \<and>
             k_size (k_mem (fst y) (kr2_mm_block (snd y))) = nunits \<and>
             kr2_keeps (k_mem s) bs (k_mem (fst y)) bs' \<and>
             (kr2_mm_block (snd y) \<in> set bs \<longrightarrow> k_isFree (k_mem s (kr2_mm_block (snd y)))) \<and>
             k_errno (fst y) = k_errno s)"

section \<open>Evaluating the code on the concrete states\<close>

lemmas arena_defs =
  mem_init_def mem_reset_brk_def mem_sbrk_def mem_heapsize_def mem_heap_lo_def
  mem_heap_hi_def mem_pagesize_def arena0_def arena1_def

lemmas kr2_defs =
  kr2_mm_malloc_def kr2_mm_init_def kr2_base_init_def kr2_base_def kr2_mm_units_def
  size_t_def kr2_sizeof_Header_def kr2_morecore_def kr2_mm_bytes_def kr2_mm_free_def
  kr2_mm_block_def connect_dlinkedlist_def Let_def kr2_merge_upper_def
  kr2_merge_lower_def kr2_take_def kr2_mm_payload_def kr2_mm_getfree_def
  kr2_mm_realloc_def kr2_memcpy_def ENOMEM_def kr2_hz_def

lemmas dll_defs =
  dll_mm_malloc_def dll_mm_init_def dll_base_init_def dll_base_def dll_mm_units_def
  size_t_def dll_sizeof_Header_def dll_morecore_def dll_mm_bytes_def dll_mm_free_def
  dll_mm_block_def link_header_def unlink_header_def coalesce_def mm_tail_def Let_def
  dll_take_def dll_mm_payload_def dll_mm_getfree_def dll_mm_realloc_def dll_memcpy_def
  ENOMEM_def dll_hz_def

lemma kr2_malloc_16: "kr2_mm_malloc kr2_s0 16 = Some (Inr (kr2_s1, 129))"
  apply (simp add: kr2_defs arena_defs kr2_s0_def kr2_malloc_loop.simps kr2_last_block.simps)
  apply (simp add: kr2_s1_def fun_eq_iff kr2_hz_def arena_defs)
  done

lemma kr2_getfree_s1: "kr2_mm_getfree kr2_s1 = Some 4096"
  by (simp add: kr2_defs kr2_s1_def kr2_getfree_loop.simps)

lemma kr2_realloc_0: "kr2_mm_realloc kr2_s1 129 0 = Some (Inr (kr2_s2, 128))"
  apply (simp add: kr2_defs arena_defs kr2_s1_def kr2_malloc_loop.simps kr2_last_block.simps)
  apply (simp add: kr2_s2_def fun_eq_iff kr2_hz_def arena_defs)
  done

lemma kr2_malloc_0: "kr2_mm_malloc kr2_s0 0 = Some (Inr (kr2_s3, 130))"
  apply (simp add: kr2_defs arena_defs kr2_s0_def kr2_malloc_loop.simps kr2_last_block.simps)
  apply (simp add: kr2_s3_def fun_eq_iff kr2_hz_def arena_defs)
  done

lemma kr2_malloc_4032: "kr2_mm_malloc kr2_s0 4032 = Some (Inr (kr2_s4, 4))"
  apply (simp add: kr2_defs arena_defs kr2_s0_def kr2_malloc_loop.simps kr2_last_block.simps)
  apply (simp add: kr2_s4_def fun_eq_iff kr2_hz_def arena_defs)
  done

lemma dll_init_s0: "dll_mm_init dll_s0 = dll_si"
  by (simp add: dll_defs arena_defs dll_s0_def dll_si_def fun_eq_iff)

lemma dll_getfree_si: "dll_mm_getfree dll_si = Some 32"
  by (simp add: dll_defs dll_si_def dll_getfree_loop.simps)

lemma dll_malloc_16: "dll_mm_malloc dll_s0 16 = Some (Inr (dll_s1, 258))"
  apply (simp add: dll_defs arena_defs dll_s0_def dll_malloc_loop.simps)
  apply (simp add: dll_s1_def fun_eq_iff dll_hz_def arena_defs)
  done

lemma dll_getfree_s1: "dll_mm_getfree dll_s1 = Some 4080"
  by (simp add: dll_defs dll_s1_def dll_getfree_loop.simps)

lemma dll_malloc_0: "dll_mm_malloc dll_s0 0 = Some (Inr (dll_s3, 2))"
  apply (simp add: dll_defs arena_defs dll_s0_def dll_malloc_loop.simps)
  apply (simp add: dll_s3_def fun_eq_iff dll_hz_def arena_defs)
  done

lemma dll_malloc_4032: "dll_mm_malloc dll_s0 4032 = Some (Inr (dll_s4, 7))"
  apply (simp add: dll_defs arena_defs dll_s0_def dll_malloc_loop.simps)
  apply (simp add: dll_s4_def fun_eq_iff dll_hz_def arena_defs)
  done

lemma dll_realloc_0: "dll_mm_realloc dll_s1 258 0 = Some (Inr (dll_s2, 256))"
  apply (simp add: dll_defs arena_defs dll_s1_def dll_malloc_loop.simps)
  apply (simp add: dll_s2_def fun_eq_iff dll_hz_def arena_defs)
  done

lemma kr2_free_0: "kr2_mm_free kr2_s3 130 = Some (Inr kr2_s5)"
  apply (simp add: kr2_defs arena_defs kr2_s3_def)
  apply (simp add: kr2_s5_def fun_eq_iff kr2_hz_def arena_defs)
  done

lemma dll_free_0: "dll_mm_free dll_s3 2 = Inl AssertFailed"
  by (simp add: dll_defs arena_defs dll_s3_def)

section \<open>Requests and block sizes\<close>

lemma kr2_mm_units_0: "kr2_mm_units 0 = 1"
  by (simp add: kr2_mm_units_def size_t_def kr2_sizeof_Header_def)

lemma dll_mm_units_0: "dll_mm_units 0 = 2"
  by (simp add: dll_mm_units_def size_t_def dll_sizeof_Header_def)

lemma kr2_mm_units_pos:
  assumes "0 < nbytes" and "nbytes + kr2_sizeof_Header \<le> 2 ^ 64"
  shows "1 < kr2_mm_units nbytes"
proof -
  from assms have a: "size_t (nbytes + kr2_sizeof_Header - 1) = nbytes + 31"
    by (simp add: size_t_def kr2_sizeof_Header_def)
  from assms(1) have b: "1 \<le> (nbytes + 31) div 32" by simp
  from assms(2) have c: "(nbytes + 31) div 32 + 1 < 2 ^ 64"
    by (simp add: kr2_sizeof_Header_def)
  from a b c show ?thesis
    by (simp add: kr2_mm_units_def size_t_def kr2_sizeof_Header_def)
qed

lemma dll_mm_units_pos:
  assumes "0 < nbytes" and "nbytes + dll_sizeof_Header \<le> 2 ^ 64"
  shows "2 < dll_mm_units nbytes"
proof -
  from assms have a: "size_t (nbytes + dll_sizeof_Header - 1) = nbytes + 15"
    by (simp add: size_t_def dll_sizeof_Header_def)
  from assms(1) have b: "1 \<le> (nbytes + 15) div 16" by simp
  from assms(2) have c: "(nbytes + 15) div 16 + 2 < 2 ^ 64"
    by (simp add: dll_sizeof_Header_def)
  from a b c show ?thesis
    by (simp add: dll_mm_units_def size_t_def dll_sizeof_Header_def)
qed

lemma size_t_le: "size_t x \<le> x"
  by (simp add: size_t_def)

lemma kr2_mm_units_le:
  assumes "newsize \<le> (n - 1) * kr2_sizeof_Header" and "0 < newsize"
  shows "kr2_mm_units newsize \<le> n"
proof -
  have "size_t (newsize + kr2_sizeof_Header - 1) \<le> newsize + 31"
    using size_t_le [of "newsize + kr2_sizeof_Header - 1"] by (simp add: kr2_sizeof_Header_def)
  then have "size_t (newsize + kr2_sizeof_Header - 1) div 32 \<le> (newsize + 31) div 32"
    by (rule div_le_mono)
  also from assms have "(newsize + 31) div 32 \<le> n - 1"
    by (simp add: kr2_sizeof_Header_def)
  finally have "size_t (newsize + kr2_sizeof_Header - 1) div 32 + 1 \<le> n"
    using assms by (cases n) (simp_all add: kr2_sizeof_Header_def)
  then show ?thesis
    using size_t_le [of "size_t (newsize + kr2_sizeof_Header - 1) div kr2_sizeof_Header + 1"]
    by (simp add: kr2_mm_units_def kr2_sizeof_Header_def)
qed

lemma dll_mm_units_le:
  assumes "newsize \<le> (n - 2) * dll_sizeof_Header" and "0 < newsize"
  shows "dll_mm_units newsize \<le> n"
proof -
  have "size_t (newsize + dll_sizeof_Header - 1) \<le> newsize + 15"
    using size_t_le [of "newsize + dll_sizeof_Header - 1"] by (simp add: dll_sizeof_Header_def)
  then have "size_t (newsize + dll_sizeof_Header - 1) div 16 \<le> (newsize + 15) div 16"
    by (rule div_le_mono)
  also from assms have "(newsize + 15) div 16 \<le> n - 2"
    by (simp add: dll_sizeof_Header_def)
  finally have "size_t (newsize + dll_sizeof_Header - 1) div 16 + 2 \<le> n"
    using assms by (cases "n \<le> 2") (simp_all add: dll_sizeof_Header_def)
  then show ?thesis
    using size_t_le [of "size_t (newsize + dll_sizeof_Header - 1) div dll_sizeof_Header + 2"]
    by (simp add: dll_mm_units_def dll_sizeof_Header_def)
qed

lemma kr2_take_size:
  "k_size (k_mem (fst (kr2_take s prev_p p nunits))
     (kr2_mm_block (snd (kr2_take s prev_p p nunits)))) = nunits"
  by (simp add: kr2_take_def kr2_mm_block_def kr2_mm_payload_def connect_dlinkedlist_def Let_def)

lemma dll_take_size:
  "d_size (d_mem (fst (dll_take s prevp p nunits))
     (dll_mm_block (snd (dll_take s prevp p nunits)))) = nunits"
  by (simp add: dll_take_def dll_mm_block_def dll_mm_payload_def link_header_def Let_def
      split: prod.splits)

lemma kr2_malloc_loop_size:
  "kr2_malloc_loop s prev_p p nunits = Some y \<Longrightarrow>
   \<forall>s' ap. y = Inr (s', ap) \<longrightarrow> ap \<noteq> NULL \<longrightarrow> k_size (k_mem s' (kr2_mm_block ap)) = nunits"
proof (induction s prev_p p nunits y rule: kr2_malloc_loop.raw_induct [rotated 1, consumes 1])
  case (1 loop s prev_p p nunits y)
  show ?case
  proof (cases "nunits \<le> k_size (k_mem s p) \<and> k_isFree (k_mem s p)")
    case True
    with 1(2) have "y = Inr (kr2_take s prev_p p nunits)" by simp
    with kr2_take_size [of s prev_p p nunits] show ?thesis by auto
  next
    case False
    show ?thesis
    proof (cases "p = k_freep s")
      case True
      with False 1(2) show ?thesis
        using 1(1) by (auto split: option.splits sum.splits prod.splits if_splits)
    next
      case F2: False
      with False 1(2) have "loop s p (k_next (k_mem s p)) nunits = Some y"
        by (auto split: if_splits)
      from 1(1) [OF this] show ?thesis .
    qed
  qed
qed

lemma dll_malloc_loop_size:
  "dll_malloc_loop s prevp p nunits = Some y \<Longrightarrow>
   \<forall>s' ap. y = Inr (s', ap) \<longrightarrow> ap \<noteq> NULL \<longrightarrow> d_size (d_mem s' (dll_mm_block ap)) = nunits"
proof (induction s prevp p nunits y rule: dll_malloc_loop.raw_induct [rotated 1, consumes 1])
  case (1 loop s prevp p nunits y)
  show ?case
  proof (cases "d_size (d_mem s p) = nunits \<or> size_t (nunits + 2) \<le> d_size (d_mem s p)")
    case True
    with 1(2) have "y = Inr (dll_take s prevp p nunits)" by auto
    with dll_take_size [of s prevp p nunits] show ?thesis by auto
  next
    case False
    show ?thesis
    proof (cases "p = d_freep s")
      case True
      with False 1(2) show ?thesis
        using 1(1) by (auto split: option.splits sum.splits prod.splits if_splits)
    next
      case F2: False
      with False 1(2) have "loop s p (d_ptr (d_mem s p)) nunits = Some y" by simp
      from 1(1) [OF this] show ?thesis .
    qed
  qed
qed

section \<open>Running out of memory\<close>

lemma kr2_morecore_fails:
  assumes "mem_max (k_arena s) <
           mem_brk (k_arena s) +
           kr2_mm_bytes (max nunits (mem_pagesize (k_arena s) div kr2_sizeof_Header))"
  shows "kr2_morecore s nunits = Some (Inr (s, NULL))"
proof -
  have "(if nunits < mem_pagesize (k_arena s) div kr2_sizeof_Header
         then mem_pagesize (k_arena s) div kr2_sizeof_Header else nunits) =
        max nunits (mem_pagesize (k_arena s) div kr2_sizeof_Header)"
    by (simp add: max_def)
  with assms show ?thesis
    by (simp add: kr2_morecore_def mem_sbrk_def Let_def)
qed

lemma dll_morecore_fails:
  assumes "mem_max (d_arena s) <
           mem_brk (d_arena s) +
           dll_mm_bytes (max nunits (mem_pagesize (d_arena s) div dll_sizeof_Header))"
  shows "dll_morecore s nunits = Inr (s, NULL)"
proof -
  have "(if nunits < mem_pagesize (d_arena s) div dll_sizeof_Header
         then mem_pagesize (d_arena s) div dll_sizeof_Header else nunits) =
        max nunits (mem_pagesize (d_arena s) div dll_sizeof_Header)"
    by (simp add: max_def)
  with assms show ?thesis
    by (simp add: dll_morecore_def mem_sbrk_def Let_def)
qed

text \<open>
  The scan of \<^verbatim>\<open>mm_malloc\<close> when no block on the list fits and the arena cannot grow:
  started anywhere on the way round, it ends where the scan meets \<^verbatim>\<open>freep\<close> again.
\<close>

lemma kr2_scan_fails:
  assumes ring: "((\<lambda>p. k_next (k_mem s p)) ^^ Suc k) (k_freep s) = k_freep s"
    and nofit: "\<forall>i\<le>k. \<not> (nunits \<le> k_size (k_mem s (((\<lambda>p. k_next (k_mem s p)) ^^ Suc i) (k_freep s))) \<and>
                   k_isFree (k_mem s (((\<lambda>p. k_next (k_mem s p)) ^^ Suc i) (k_freep s))))"
    and full: "mem_max (k_arena s) <
           mem_brk (k_arena s) +
           kr2_mm_bytes (max nunits (mem_pagesize (k_arena s) div kr2_sizeof_Header))"
  shows "j \<le> k \<Longrightarrow>
         kr2_malloc_loop s (((\<lambda>p. k_next (k_mem s p)) ^^ j) (k_freep s))
           (((\<lambda>p. k_next (k_mem s p)) ^^ Suc j) (k_freep s)) nunits =
         Some (Inr (s\<lparr>k_errno := ENOMEM\<rparr>, NULL))"
proof (induction "k - j" arbitrary: j)
  case 0
  then have "j = k" by simp
  with ring nofit kr2_morecore_fails [OF full] show ?case
    by (subst kr2_malloc_loop.simps) auto
next
  case (Suc d)
  then have jk: "Suc j \<le> k" and d: "d = k - Suc j" by simp_all
  from Suc(1) [OF d jk] have ih:
    "kr2_malloc_loop s (((\<lambda>p. k_next (k_mem s p)) ^^ Suc j) (k_freep s))
       (((\<lambda>p. k_next (k_mem s p)) ^^ Suc (Suc j)) (k_freep s)) nunits =
     Some (Inr (s\<lparr>k_errno := ENOMEM\<rparr>, NULL))" .
  from nofit Suc(3) have nf:
    "\<not> (nunits \<le> k_size (k_mem s (((\<lambda>p. k_next (k_mem s p)) ^^ Suc j) (k_freep s))) \<and>
        k_isFree (k_mem s (((\<lambda>p. k_next (k_mem s p)) ^^ Suc j) (k_freep s))))"
    by blast
  show ?case
    apply (subst kr2_malloc_loop.simps)
    using nf ih kr2_morecore_fails [OF full] by auto
qed

lemma dll_scan_fails:
  assumes ring: "((\<lambda>p. d_ptr (d_mem s p)) ^^ Suc k) (d_freep s) = d_freep s"
    and nofit: "\<forall>i\<le>k. \<not> (d_size (d_mem s (((\<lambda>p. d_ptr (d_mem s p)) ^^ Suc i) (d_freep s))) = nunits \<or>
                   size_t (nunits + 2) \<le> d_size (d_mem s (((\<lambda>p. d_ptr (d_mem s p)) ^^ Suc i) (d_freep s))))"
    and full: "mem_max (d_arena s) <
           mem_brk (d_arena s) +
           dll_mm_bytes (max nunits (mem_pagesize (d_arena s) div dll_sizeof_Header))"
  shows "j \<le> k \<Longrightarrow>
         dll_malloc_loop s (((\<lambda>p. d_ptr (d_mem s p)) ^^ j) (d_freep s))
           (((\<lambda>p. d_ptr (d_mem s p)) ^^ Suc j) (d_freep s)) nunits =
         Some (Inr (s\<lparr>d_errno := ENOMEM\<rparr>, NULL))"
proof (induction "k - j" arbitrary: j)
  case 0
  then have "j = k" by simp
  with ring nofit dll_morecore_fails [OF full] show ?case
    by (subst dll_malloc_loop.simps) auto
next
  case (Suc d)
  then have jk: "Suc j \<le> k" and d: "d = k - Suc j" by simp_all
  from Suc(1) [OF d jk] have ih:
    "dll_malloc_loop s (((\<lambda>p. d_ptr (d_mem s p)) ^^ Suc j) (d_freep s))
       (((\<lambda>p. d_ptr (d_mem s p)) ^^ Suc (Suc j)) (d_freep s)) nunits =
     Some (Inr (s\<lparr>d_errno := ENOMEM\<rparr>, NULL))" .
  from nofit Suc(3) have nf:
    "\<not> (d_size (d_mem s (((\<lambda>p. d_ptr (d_mem s p)) ^^ Suc j) (d_freep s))) = nunits \<or>
        size_t (nunits + 2) \<le> d_size (d_mem s (((\<lambda>p. d_ptr (d_mem s p)) ^^ Suc j) (d_freep s))))"
    by blast
  show ?case
    apply (subst dll_malloc_loop.simps)
    using nf ih dll_morecore_fails [OF full] by auto
qed

section \<open>Lists of blocks in mm_heap_kr2.c\<close>

lemma kr2_seg_append:
  "kr2_seg m pv a (xs @ ys) e \<longleftrightarrow>
   (\<exists>mid. kr2_seg m pv a xs mid \<and> kr2_seg m (last (pv # xs)) mid ys e)"
  by (induction xs arbitrary: pv a) auto

lemma kr2_seg_bounds:
  "kr2_seg m pv a bs e \<Longrightarrow> a \<le> e \<and> (\<forall>b\<in>set bs. a \<le> b \<and> b < e)"
proof (induction bs arbitrary: pv a)
  case Nil
  then show ?case by simp
next
  case (Cons b bs)
  from Cons.prems have b: "b = a" "0 < k_size (m b)"
    and r: "kr2_seg m b (a + k_size (m b)) bs e" by auto
  from Cons.IH [OF r] b show ?case by fastforce
qed

lemma kr2_seg_cong:
  "(\<forall>x\<in>set bs. k_size (m' x) = k_size (m x) \<and> k_prev (m' x) = k_prev (m x) \<and>
       k_next (m' x) = k_next (m x)) \<Longrightarrow>
   k_next (m' pv) = k_next (m pv) \<Longrightarrow>
   kr2_seg m' pv a bs e = kr2_seg m pv a bs e"
  by (induction bs arbitrary: pv a) simp_all

lemma kr2_seg_distinct: "kr2_seg m pv a bs e \<Longrightarrow> distinct bs"
proof (induction bs arbitrary: pv a)
  case Nil
  then show ?case by simp
next
  case (Cons b bs)
  from Cons.prems have b: "b = a" "0 < k_size (m b)"
    and r: "kr2_seg m b (a + k_size (m b)) bs e" by auto
  from kr2_seg_bounds [OF r] b have "b \<notin> set bs" by fastforce
  with Cons.IH [OF r] show ?case by simp
qed

lemma kr2_no_adjacent_mono:
  "kr2_no_adjacent m bs \<Longrightarrow> (\<forall>x\<in>set bs. k_isFree (m' x) \<longrightarrow> k_isFree (m x)) \<Longrightarrow>
   kr2_no_adjacent m' bs"
  by (induction m bs rule: kr2_no_adjacent.induct) auto

lemma kr2_no_adjacent_insert:
  "kr2_no_adjacent m (xs @ ys) \<Longrightarrow> \<not> k_isFree (m c) \<Longrightarrow> kr2_no_adjacent m (xs @ c # ys)"
proof (induction xs)
  case Nil
  then show ?case by (cases ys) simp_all
next
  case (Cons x xs)
  then show ?case by (cases xs) (auto, (cases ys; simp)+)
qed

lemma kr2_no_adjacent_append:
  "kr2_no_adjacent m (xs @ ys) \<longleftrightarrow>
   kr2_no_adjacent m xs \<and> kr2_no_adjacent m ys \<and>
   (xs \<noteq> [] \<and> ys \<noteq> [] \<longrightarrow> \<not> (k_isFree (m (last xs)) \<and> k_isFree (m (hd ys))))"
proof (induction xs)
  case Nil
  then show ?case by simp
next
  case (Cons x xs)
  show ?case
  proof (cases xs)
    case Nil
    then show ?thesis by (cases ys) auto
  next
    case (Cons x' xs')
    with Cons.IH show ?thesis by auto
  qed
qed

lemma kr2_ring_split:
  "kr2_ring m lo (xs @ x # ys) hi \<longleftrightarrow>
   (kr2_base < lo \<and> hi < 2 ^ 59 \<and> kr2_seg m kr2_base lo xs x \<and> 0 < k_size (m x) \<and>
    k_next (m (last (kr2_base # xs))) = x \<and> k_prev (m x) = last (kr2_base # xs) \<and>
    kr2_seg m x (x + k_size (m x)) ys hi \<and>
    k_next (m (last (x # ys))) = kr2_base \<and> k_prev (m kr2_base) = last (x # ys) \<and>
    \<not> k_isFree (m kr2_base) \<and> k_size (m kr2_base) = 0)"
  by (auto simp: kr2_ring_def kr2_seg_append)

lemma kr2_ring_facts:
  assumes "kr2_ring m lo (xs @ x # ys) hi"
  shows "\<forall>b\<in>set xs. lo \<le> b \<and> b < x" and "\<forall>b\<in>set ys. x + k_size (m x) \<le> b \<and> b < hi"
    and "lo \<le> x" and "x + k_size (m x) \<le> hi" and "kr2_base < lo" and "0 < k_size (m x)"
    and "x \<notin> set xs" and "x \<notin> set ys" and "kr2_base \<notin> set xs" and "kr2_base \<notin> set ys"
    and "kr2_base \<noteq> x"
proof -
  from assms have a: "kr2_seg m kr2_base lo xs x" and b: "kr2_seg m x (x + k_size (m x)) ys hi"
    and c: "kr2_base < lo" and d: "0 < k_size (m x)"
    by (simp_all add: kr2_ring_split)
  from kr2_seg_bounds [OF a] show 1: "\<forall>b\<in>set xs. lo \<le> b \<and> b < x" and 3: "lo \<le> x" by simp_all
  from kr2_seg_bounds [OF b] show 2: "\<forall>b\<in>set ys. x + k_size (m x) \<le> b \<and> b < hi"
    and "x + k_size (m x) \<le> hi" by simp_all
  show "kr2_base < lo" by (rule c)
  show "0 < k_size (m x)" by (rule d)
  from 1 show "x \<notin> set xs" by auto
  from 2 d show "x \<notin> set ys" by auto
  from 1 c show "kr2_base \<notin> set xs" by auto
  from 2 3 c show "kr2_base \<notin> set ys" by auto
  from 3 c show "kr2_base \<noteq> x" by auto
qed

text \<open>The block after \<open>x\<close> on the ring.\<close>

lemma kr2_ring_next:
  assumes "kr2_ring m lo (xs @ x # ys) hi"
  shows "k_next (m x) = hd (ys @ [kr2_base])"
  using assms by (cases ys) (simp_all add: kr2_ring_split)

lemma kr2_ring_insert:
  assumes ring: "kr2_ring m lo (xs @ p # ys) hi"
    and n: "0 < n" "n < k_size (m p)"
    and m': "m' = (\<lambda>x. if x = p then (m p)\<lparr>k_size := n, k_next := p + n\<rparr>
                      else if x = p + n then h'
                      else if x = k_next (m p) then (m x)\<lparr>k_prev := p + n\<rparr>
                      else m x)"
    and h': "k_size h' = k_size (m p) - n" "k_prev h' = p" "k_next h' = k_next (m p)"
  shows "kr2_ring m' lo (xs @ p # (p + n) # ys) hi"
proof -
  note f = kr2_ring_facts [OF ring]
  from ring have r: "kr2_seg m kr2_base lo xs p" "k_next (m (last (kr2_base # xs))) = p"
    "k_prev (m p) = last (kr2_base # xs)" "kr2_seg m p (p + k_size (m p)) ys hi"
    "k_next (m (last (p # ys))) = kr2_base" "k_prev (m kr2_base) = last (p # ys)"
    "\<not> k_isFree (m kr2_base)" "k_size (m kr2_base) = 0" "hi < 2 ^ 59"
    by (simp_all add: kr2_ring_split)
  have nx: "k_next (m p) = hd (ys @ [kr2_base])" by (rule kr2_ring_next [OF ring])
  have p'xs: "p + n \<notin> set xs" using f(1) n by auto
  have p'ys: "p + n \<notin> set ys" using f(2) n by auto
  have p'b: "p + n \<noteq> kr2_base" using f(3,5) by auto
  have nxs: "k_next (m p) \<notin> set xs" using nx f(7,9) f(1,2)
    by (cases ys) (auto simp: kr2_ring_facts)
  have xs_same: "\<forall>x\<in>set xs. m' x = m x"
    using f(7) p'xs nxs by (auto simp: m')
  have lastxs: "k_next (m' (last (kr2_base # xs))) = k_next (m (last (kr2_base # xs)))"
  proof (cases "xs = []")
    case True
    then show ?thesis using f(11) p'b by (simp add: m')
  next
    case False
    then have "last (kr2_base # xs) \<in> set xs" by simp
    with xs_same show ?thesis by simp
  qed
  have s1: "kr2_seg m' kr2_base lo xs p"
  proof -
    have "k_next (m' kr2_base) = k_next (m kr2_base)" using f(11) p'b by (simp add: m')
    with xs_same r(1) show ?thesis by (simp add: kr2_seg_cong [of xs m' m])
  qed
  have s2: "kr2_seg m' (p + n) (p + k_size (m p)) ys hi \<and>
            k_next (m' (last ((p + n) # ys))) = kr2_base \<and>
            k_prev (m' kr2_base) = last ((p + n) # ys)"
  proof (cases ys)
    case Nil
    with r nx n h' f(11) p'b show ?thesis by (simp add: m')
  next
    case (Cons y ys')
    with r(4) have y: "y = p + k_size (m p)" "0 < k_size (m y)" "k_next (m p) = y"
      and t: "kr2_seg m y (y + k_size (m y)) ys' hi" by auto
    from kr2_seg_bounds [OF t] y have yys: "\<forall>b\<in>set ys'. y < b" by fastforce
    from y n have ne: "y \<noteq> p" "y \<noteq> p + n" by auto
    have same: "\<forall>x\<in>set ys'. m' x = m x"
      using yys y n f(2) Cons by (auto simp: m')
    have "k_next (m' y) = k_next (m y)" using ne y by (simp add: m')
    with same t have t': "kr2_seg m' y (y + k_size (m y)) ys' hi"
      by (simp add: kr2_seg_cong [of ys' m' m])
    have l: "k_next (m' (last (y # ys'))) = k_next (m (last (y # ys')))"
    proof (cases "ys' = []")
      case True
      with ne y show ?thesis by (simp add: m')
    next
      case False
      then have "last (y # ys') \<in> set ys'" by simp
      with same show ?thesis by simp
    qed
    have b: "m' kr2_base = m kr2_base"
      using f(11) p'b y f(3,5) n by (auto simp: m')
    from t' l b r(5,6) y ne h' n Cons show ?thesis by (simp add: m')
  qed
  from s1 s2 r n h' lastxs f(11) p'b f(5) show ?thesis
    by (subst kr2_ring_split) (simp add: m')
qed

lemma kr2_ring_flag:
  assumes "kr2_ring m lo bs hi" and "b \<noteq> kr2_base"
  shows "kr2_ring (m(b := (m b)\<lparr>k_isFree := v\<rparr>)) lo bs hi"
proof -
  have "kr2_seg (m(b := (m b)\<lparr>k_isFree := v\<rparr>)) kr2_base lo bs hi = kr2_seg m kr2_base lo bs hi"
    by (rule kr2_seg_cong) simp_all
  with assms show ?thesis by (auto simp add: kr2_ring_def)
qed

lemma kr2_absorb_eq:
  assumes ring: "kr2_ring m lo (xs @ x # y # ys) hi"
  shows "kr2_absorb m x =
         (\<lambda>c. if c = hd (ys @ [kr2_base]) then (m c)\<lparr>k_prev := x\<rparr>
              else if c = x then (m x)\<lparr>k_size := k_size (m x) + k_size (m y),
                                       k_next := hd (ys @ [kr2_base])\<rparr>
              else m c)"
proof -
  note f = kr2_ring_facts [OF ring]
  have ring': "kr2_ring m lo ((xs @ [x]) @ y # ys) hi" using ring by simp
  note g = kr2_ring_facts [OF ring']
  have nx: "k_next (m x) = y" using kr2_ring_next [OF ring] by simp
  have ny: "k_next (m y) = hd (ys @ [kr2_base])" by (rule kr2_ring_next [OF ring'])
  have xy: "y \<noteq> x" using g(7) by simp
  from ring have "kr2_seg m x (x + k_size (m x)) (y # ys) hi" by (auto simp add: kr2_ring_split)
  then have yx: "y = x + k_size (m x)" by simp
  from g(4) yx have "k_size (m x) + k_size (m y) \<le> hi" by simp
  moreover from ring have "hi < 2 ^ 59" by (simp add: kr2_ring_def)
  moreover have "(2::nat) ^ 59 < 2 ^ 64" by simp
  ultimately have "k_size (m x) + k_size (m y) < 2 ^ 64" by linarith
  then have st: "size_t (k_size (m x) + k_size (m y)) = k_size (m x) + k_size (m y)"
    by (simp add: size_t_def)
  have nnx: "hd (ys @ [kr2_base]) \<noteq> x"
    using f(8) f(11) by (cases ys) auto
  show ?thesis
    using nx ny xy st nnx
    by (auto simp: kr2_absorb_def connect_dlinkedlist_def Let_def fun_eq_iff)
qed

lemma kr2_ring_splitD:
  assumes "kr2_ring m lo (xs @ x # ys) hi"
  shows "kr2_seg m kr2_base lo xs x"
    and "k_next (m (last (kr2_base # xs))) = x"
    and "k_prev (m x) = last (kr2_base # xs)"
    and "kr2_seg m x (x + k_size (m x)) ys hi"
    and "k_next (m (last (x # ys))) = kr2_base"
    and "k_prev (m kr2_base) = last (x # ys)"
    and "\<not> k_isFree (m kr2_base)"
    and "k_size (m kr2_base) = 0"
    and "hi < 2 ^ 59"
  using assms by (simp_all add: kr2_ring_split)

lemma kr2_ring_before:
  assumes ring: "kr2_ring m lo (xs @ x # ys) hi" and b: "b \<in> set xs"
  shows "b + k_size (m b) \<le> x"
proof -
  from b obtain us vs where xs: "xs = us @ b # vs" by (auto dest: split_list)
  from ring have "kr2_ring m lo (us @ b # (vs @ x # ys)) hi" by (simp add: xs)
  from kr2_ring_facts(2) [OF this] show ?thesis by simp
qed

text \<open>No cell inside a block, above its header, is a header or \<^verbatim>\<open>base\<close>.\<close>

lemma kr2_ring_interior:
  assumes ring: "kr2_ring m lo bs hi" and b: "b \<in> set bs"
    and i: "0 < i" "i < k_size (m b)"
  shows "b + i \<notin> set bs" and "b + i \<noteq> kr2_base" and "b + i < hi"
proof -
  from b obtain xs ys where bs: "bs = xs @ b # ys" by (auto dest: split_list)
  note f = kr2_ring_facts [OF ring [unfolded bs]]
  from f(1,2) i show "b + i \<notin> set bs" by (auto simp: bs)
  from f(3,5) show "b + i \<noteq> kr2_base" by simp
  from f(4) i show "b + i < hi" by simp
qed

text \<open>
  A step keeps the allocated blocks when it leaves their flags and sizes alone and writes
  only to headers, to \<^verbatim>\<open>base\<close> and to cells \<open>W\<close> outside the allocated blocks.
\<close>

lemma kr2_keeps_frame:
  assumes ring: "kr2_ring m lo bs hi"
    and al: "\<And>b. b \<in> set bs \<Longrightarrow> \<not> k_isFree (m b) \<Longrightarrow>
                b \<in> set bs' \<and> \<not> k_isFree (m' b) \<and> k_size (m' b) = k_size (m b)"
    and fr: "\<And>c. c \<notin> set bs \<Longrightarrow> c \<noteq> kr2_base \<Longrightarrow> c \<notin> W \<Longrightarrow> m' c = m c"
    and w: "\<And>w b. w \<in> W \<Longrightarrow> b \<in> set bs \<Longrightarrow> \<not> k_isFree (m b) \<Longrightarrow>
                \<not> (b < w \<and> w < b + k_size (m b))"
  shows "kr2_keeps m bs m' bs'"
  unfolding kr2_keeps_def
proof (intro ballI impI conjI allI)
  fix b
  assume b: "b \<in> set bs" "\<not> k_isFree (m b)"
  from al [OF b] show "b \<in> set bs'" "\<not> k_isFree (m' b)" "k_size (m' b) = k_size (m b)"
    by simp_all
  fix i
  assume i: "0 < i \<and> i < k_size (m b)"
  then have i': "0 < i" "i < k_size (m b)" by simp_all
  note n = kr2_ring_interior [OF ring b(1) i']
  have "b + i \<notin> W" using w [OF _ b, of "b + i"] i' by auto
  with fr [OF n(1,2)] show "m' (b + i) = m (b + i)" by simp
qed

lemma kr2_keeps_trans:
  assumes "kr2_keeps m bs m1 bs1" and "kr2_keeps m1 bs1 m2 bs2"
  shows "kr2_keeps m bs m2 bs2"
  using assms unfolding kr2_keeps_def by fastforce

lemma kr2_ring_absorb:
  assumes ring: "kr2_ring m lo (xs @ x # y # ys) hi"
  shows "kr2_ring (kr2_absorb m x) lo (xs @ x # ys) hi"
proof -
  define nn where "nn = hd (ys @ [kr2_base])"
  define m' where "m' = kr2_absorb m x"
  have m': "m' = (\<lambda>c. if c = nn then (m c)\<lparr>k_prev := x\<rparr>
              else if c = x then (m x)\<lparr>k_size := k_size (m x) + k_size (m y), k_next := nn\<rparr>
              else m c)"
    unfolding m'_def nn_def by (rule kr2_absorb_eq [OF ring])
  note f = kr2_ring_facts [OF ring]
  have ring': "kr2_ring m lo ((xs @ [x]) @ y # ys) hi" using ring by simp
  note g = kr2_ring_facts [OF ring']
  note r = kr2_ring_splitD [OF ring]
  note r' = kr2_ring_splitD [OF ring', simplified]
  from r(4) have yx: "y = x + k_size (m x)" by simp
  have nnx: "nn \<noteq> x" unfolding nn_def using f(8) f(11) by (cases ys) auto
  have nnxs: "nn \<notin> set xs" unfolding nn_def using f(9) f(1) f(2) f(6)
    by (cases ys) fastforce+
  have xs_same: "\<forall>c\<in>set xs. m' c = m c"
    using f(7) nnxs by (auto simp: m')
  have nb: "k_next (m' kr2_base) = k_next (m kr2_base)" using f(11) by (simp add: m')
  have fb: "k_isFree (m' kr2_base) = k_isFree (m kr2_base)"
    "k_size (m' kr2_base) = k_size (m kr2_base)" using f(11) by (simp_all add: m')
  have s1: "kr2_seg m' kr2_base lo xs x"
    using xs_same nb r(1) by (simp add: kr2_seg_cong [of xs m' m])
  have lastxs: "k_next (m' (last (kr2_base # xs))) = x"
  proof (cases "xs = []")
    case True
    with nb r(2) show ?thesis by simp
  next
    case False
    then have "last (kr2_base # xs) \<in> set xs" by simp
    with xs_same r(2) show ?thesis by simp
  qed
  have s2: "kr2_seg m' x (y + k_size (m y)) ys hi \<and>
            k_next (m' (last (x # ys))) = kr2_base \<and>
            k_prev (m' kr2_base) = last (x # ys)"
  proof (cases ys)
    case Nil
    with r'(4,5,6) nnx show ?thesis by (simp add: m' nn_def)
  next
    case (Cons z zs)
    with r'(4) have z: "z = y + k_size (m y)" "0 < k_size (m z)" "k_prev (m z) = y"
      and t: "kr2_seg m z (z + k_size (m z)) zs hi" by auto
    have nz: "nn = z" by (simp add: nn_def Cons)
    from kr2_seg_bounds [OF t] z have zzs: "\<forall>b\<in>set zs. z < b" by fastforce
    from g(2) Cons have xz: "x < z" using yx g(6) f(6) by auto
    have same: "\<forall>c\<in>set zs. m' c = m c"
      using zzs xz by (auto simp: m' nz)
    have "k_next (m' z) = k_next (m z)" by (simp add: m' nz)
    with same t have t': "kr2_seg m' z (z + k_size (m z)) zs hi"
      by (simp add: kr2_seg_cong [of zs m' m])
    have l: "k_next (m' (last (z # zs))) = k_next (m (last (z # zs)))"
    proof (cases "zs = []")
      case True
      then show ?thesis by (simp add: m' nz)
    next
      case False
      then have "last (z # zs) \<in> set zs" by simp
      with same show ?thesis by simp
    qed
    have bz: "kr2_base \<noteq> z" using g(10) Cons by auto
    with f(11) have b: "m' kr2_base = m kr2_base" by (auto simp: m' nz)
    from t' l b r'(5,6) z xz Cons show ?thesis by (simp add: m' nz)
  qed
  from s1 s2 r(3,7,8,9) lastxs fb f(5) f(6) nnx yx have "kr2_ring m' lo (xs @ x # ys) hi"
    by (subst kr2_ring_split) (simp add: m' add.assoc)
  then show ?thesis by (simp add: m'_def)
qed

lemma kr2_absorb_fields:
  assumes ring: "kr2_ring m lo (xs @ x # y # ys) hi"
  shows "k_size (kr2_absorb m x x) = k_size (m x) + k_size (m y)"
    and "k_isFree (kr2_absorb m x c) = k_isFree (m c)"
    and "c \<noteq> x \<Longrightarrow> k_size (kr2_absorb m x c) = k_size (m c)"
    and "c \<notin> set (xs @ x # y # ys) \<Longrightarrow> c \<noteq> kr2_base \<Longrightarrow> kr2_absorb m x c = m c"
    and "k_prev (kr2_absorb m x x) = k_prev (m x)"
proof -
  note f = kr2_ring_facts [OF ring]
  have nnx: "hd (ys @ [kr2_base]) \<noteq> x" using f(8) f(11) by (cases ys) auto
  show "k_size (kr2_absorb m x x) = k_size (m x) + k_size (m y)"
    using nnx by (simp add: kr2_absorb_eq [OF ring])
  show "k_isFree (kr2_absorb m x c) = k_isFree (m c)"
    by (simp add: kr2_absorb_eq [OF ring])
  show "c \<noteq> x \<Longrightarrow> k_size (kr2_absorb m x c) = k_size (m c)"
    by (simp add: kr2_absorb_eq [OF ring])
  show "c \<notin> set (xs @ x # y # ys) \<Longrightarrow> c \<noteq> kr2_base \<Longrightarrow> kr2_absorb m x c = m c"
    by (cases ys) (auto simp add: kr2_absorb_eq [OF ring])
  show "k_prev (kr2_absorb m x x) = k_prev (m x)"
    using nnx by (simp add: kr2_absorb_eq [OF ring])
qed

lemma kr2_merge_upper_ring:
  assumes ring: "kr2_ring m lo (xs @ b # ys) hi"
  shows "kr2_merge_upper m b =
         (if ys \<noteq> [] \<and> k_isFree (m (hd ys)) then kr2_absorb m b else m)"
proof (cases ys)
  case Nil
  with ring show ?thesis by (simp add: kr2_merge_upper_def kr2_ring_split)
next
  case (Cons y ys')
  with ring have "k_next (m b) = y" "y = b + k_size (m b)"
    by (auto simp add: kr2_ring_split)
  with Cons show ?thesis
    by (simp add: kr2_merge_upper_def kr2_absorb_def)
qed

lemma kr2_merge_lower_ring:
  assumes ring: "kr2_ring m lo (xs @ b # ys) hi"
  shows "kr2_merge_lower m b =
         (if xs \<noteq> [] \<and> k_isFree (m (last xs)) then (kr2_absorb m (last xs), last xs)
          else (m, b))"
proof (cases xs rule: rev_cases)
  case Nil
  with ring show ?thesis by (auto simp add: kr2_merge_lower_def kr2_ring_def)
next
  case (snoc xs' l)
  with ring have ring': "kr2_ring m lo (xs' @ l # b # ys) hi" by simp
  note f = kr2_ring_facts [OF ring]
  from kr2_ring_splitD(3) [OF ring] snoc have pb: "k_prev (m b) = l" by simp
  from kr2_ring_splitD(4) [OF ring'] have nl: "k_next (m l) = b" "b = l + k_size (m l)"
    by simp_all
  have lb: "l \<noteq> b" using f(7) snoc by auto
  have nb: "k_next (m b) \<noteq> b" using kr2_ring_next [OF ring] f(8) f(11) by (cases ys) auto
  show ?thesis
    using snoc pb nl lb nb
    by (simp add: kr2_merge_lower_def kr2_absorb_def connect_dlinkedlist_def Let_def)
qed

lemma kr2_last_block_seg:
  "kr2_seg m pv a bs e \<Longrightarrow> pv < a \<Longrightarrow> k_next (m (last (pv # bs))) \<le> last (pv # bs) \<Longrightarrow>
   kr2_last_block m pv = Some (last (pv # bs))"
proof (induction bs arbitrary: pv a)
  case Nil
  then show ?case by (subst kr2_last_block.simps) simp
next
  case (Cons b bs)
  from Cons.prems(1) have b: "b = a" "0 < k_size (m b)" "k_next (m pv) = b"
    and r: "kr2_seg m b (a + k_size (m b)) bs e" by auto
  from b have lt: "b < a + k_size (m b)" by simp
  from Cons.prems(3) have l: "k_next (m (last (b # bs))) \<le> last (b # bs)" by simp
  from Cons.IH [OF r lt l] have "kr2_last_block m b = Some (last (b # bs))" .
  with b Cons.prems(2) show ?case by (subst kr2_last_block.simps) simp
qed

lemma kr2_last_block_ring:
  assumes ring: "kr2_ring m lo bs hi" and x: "x \<in> set (kr2_base # bs)"
  shows "kr2_last_block m x = Some (last (kr2_base # bs))"
proof (cases "x = kr2_base")
  case True
  from ring have "kr2_seg m kr2_base lo bs hi" "kr2_base < lo"
    "k_next (m (last (kr2_base # bs))) = kr2_base"
    by (simp_all add: kr2_ring_def)
  moreover have "kr2_base \<le> last (kr2_base # bs)"
  proof (cases "bs = []")
    case True
    then show ?thesis by simp
  next
    case False
    then have "last bs \<in> set bs" by simp
    with kr2_seg_bounds [OF \<open>kr2_seg m kr2_base lo bs hi\<close>] \<open>kr2_base < lo\<close> False
    show ?thesis by fastforce
  qed
  ultimately show ?thesis using True kr2_last_block_seg [of m kr2_base lo bs hi] by simp
next
  case False
  with x obtain xs ys where bs: "bs = xs @ x # ys" by (auto dest: split_list)
  note r = kr2_ring_splitD [OF ring [unfolded bs]]
  note f = kr2_ring_facts [OF ring [unfolded bs]]
  have "kr2_base \<le> last (x # ys)"
  proof (cases "ys = []")
    case True
    with f(3,5) show ?thesis by simp
  next
    case False
    then have "last ys \<in> set ys" by simp
    with f(2,3,5) False show ?thesis by fastforce
  qed
  with r(4,5) f(6) kr2_last_block_seg [of m x "x + k_size (m x)" ys hi]
  show ?thesis by (simp add: bs)
qed

lemma kr2_ring_append:
  assumes ring: "kr2_ring m lo bs hi" and nu: "0 < nu" "hi + nu < 2 ^ 59"
  defines "pl \<equiv> last (kr2_base # bs)"
  defines "m0 \<equiv> m(hi := (m hi)\<lparr>k_size := nu, k_prev := NULL, k_next := NULL\<rparr>)"
  shows "kr2_ring (connect_dlinkedlist (connect_dlinkedlist m0 pl hi) hi (k_next (m0 pl))) lo
           (bs @ [hi]) (hi + nu)"
proof (cases bs rule: rev_cases)
  case Nil
  with ring nu show ?thesis
    by (auto simp add: kr2_ring_def pl_def m0_def connect_dlinkedlist_def Let_def)
next
  case (snoc xs l)
  note ring' = ring [unfolded snoc]
  note r = kr2_ring_splitD [OF ring']
  note f = kr2_ring_facts [OF ring']
  define m' where
    "m' = connect_dlinkedlist (connect_dlinkedlist m0 pl hi) hi (k_next (m0 pl))"
  from r(4) have lh: "l + k_size (m l) = hi" by simp
  with f(6) have ne: "l \<noteq> hi" "hi \<noteq> l" by auto
  from f(3,5) lh have hb: "hi \<noteq> kr2_base" "kr2_base \<noteq> hi" by auto
  have pl: "pl = l" by (simp add: pl_def snoc)
  from r(5) have nl: "k_next (m l) = kr2_base" by simp
  have m': "m' = (\<lambda>c. if c = kr2_base then (m c)\<lparr>k_prev := hi\<rparr>
                      else if c = hi then (m c)\<lparr>k_size := nu, k_prev := l, k_next := kr2_base\<rparr>
                      else if c = l then (m c)\<lparr>k_next := hi\<rparr> else m c)"
    using ne hb f(11) nl
    by (auto simp add: m'_def m0_def pl connect_dlinkedlist_def Let_def fun_eq_iff)
  have hxs: "hi \<notin> set xs" using f(1) lh by auto
  have xs_same: "\<forall>c\<in>set xs. m' c = m c" using f(7,9) hxs by (auto simp: m')
  have nb: "k_next (m' kr2_base) = k_next (m kr2_base)" by (simp add: m')
  have s1: "kr2_seg m' kr2_base lo xs l"
    using xs_same nb r(1) by (simp add: kr2_seg_cong [of xs m' m])
  have lastxs: "k_next (m' (last (kr2_base # xs))) = l"
  proof (cases "xs = []")
    case True
    with nb r(2) show ?thesis by simp
  next
    case False
    then have "last (kr2_base # xs) \<in> set xs" by simp
    with xs_same r(2) show ?thesis by simp
  qed
  from s1 lastxs r(3,7,8) f(5,6,11) ne hb lh nu have "kr2_ring m' lo (xs @ l # [hi]) (hi + nu)"
    by (subst kr2_ring_split) (simp add: m')
  then show ?thesis by (simp add: m'_def snoc)
qed

lemma kr2_upper_step:
  assumes ring: "kr2_ring m lo (xs @ b # ys) hi"
  defines "U \<equiv> ys \<noteq> [] \<and> k_isFree (m (hd ys))"
  defines "m' \<equiv> kr2_merge_upper m b"
  shows "kr2_ring m' lo (xs @ b # (if U then tl ys else ys)) hi"
    and "k_isFree (m' c) = k_isFree (m c)"
    and "k_size (m' b) = k_size (m b) + (if U then k_size (m (hd ys)) else 0)"
    and "c \<noteq> b \<Longrightarrow> k_size (m' c) = k_size (m c)"
    and "c \<notin> set (xs @ b # ys) \<Longrightarrow> c \<noteq> kr2_base \<Longrightarrow> m' c = m c"
proof -
  have mu: "m' = (if U then kr2_absorb m b else m)"
    unfolding m'_def U_def by (rule kr2_merge_upper_ring [OF ring])
  show "kr2_ring m' lo (xs @ b # (if U then tl ys else ys)) hi"
  proof (cases U)
    case True
    then obtain u ys' where ys: "ys = u # ys'" by (cases ys) (auto simp: U_def)
    from kr2_ring_absorb [OF ring [unfolded ys]] True show ?thesis by (simp add: mu ys)
  next
    case False
    with ring show ?thesis by (simp add: mu)
  qed
  show "k_isFree (m' c) = k_isFree (m c)"
  proof (cases U)
    case True
    then obtain u ys' where ys: "ys = u # ys'" by (cases ys) (auto simp: U_def)
    from kr2_absorb_fields(2) [OF ring [unfolded ys]] True show ?thesis by (simp add: mu)
  next
    case False
    then show ?thesis by (simp add: mu)
  qed
  show "k_size (m' b) = k_size (m b) + (if U then k_size (m (hd ys)) else 0)"
  proof (cases U)
    case True
    then obtain u ys' where ys: "ys = u # ys'" by (cases ys) (auto simp: U_def)
    from kr2_absorb_fields(1) [OF ring [unfolded ys]] True show ?thesis by (simp add: mu ys)
  next
    case False
    then show ?thesis by (simp add: mu)
  qed
  show "c \<noteq> b \<Longrightarrow> k_size (m' c) = k_size (m c)"
  proof (cases U)
    case True
    assume cb: "c \<noteq> b"
    from True obtain u ys' where ys: "ys = u # ys'" by (cases ys) (auto simp: U_def)
    from kr2_absorb_fields(3) [OF ring [unfolded ys] cb] True show ?thesis by (simp add: mu)
  next
    case False
    then show ?thesis by (simp add: mu)
  qed
  show "c \<notin> set (xs @ b # ys) \<Longrightarrow> c \<noteq> kr2_base \<Longrightarrow> m' c = m c"
  proof (cases U)
    case True
    assume c: "c \<notin> set (xs @ b # ys)" "c \<noteq> kr2_base"
    from True obtain u ys' where ys: "ys = u # ys'" by (cases ys) (auto simp: U_def)
    from kr2_absorb_fields(4) [OF ring [unfolded ys] c(1) [unfolded ys] c(2)] True
    show ?thesis by (simp add: mu)
  next
    case False
    then show ?thesis by (simp add: mu)
  qed
qed

lemma kr2_lower_step:
  assumes ring: "kr2_ring m lo (xs @ b # ys) hi"
  defines "L \<equiv> xs \<noteq> [] \<and> k_isFree (m (last xs))"
  defines "R \<equiv> kr2_merge_lower m b"
  shows "kr2_ring (fst R) lo ((if L then xs else xs @ [b]) @ ys) hi"
    and "snd R = (if L then last xs else b)"
    and "k_isFree (fst R c) = k_isFree (m c)"
    and "k_size (fst R (snd R)) = (if L then k_size (m (last xs)) else 0) + k_size (m b)"
    and "c \<noteq> snd R \<Longrightarrow> k_size (fst R c) = k_size (m c)"
    and "c \<notin> set (xs @ b # ys) \<Longrightarrow> c \<noteq> kr2_base \<Longrightarrow> fst R c = m c"
proof -
  have ml: "R = (if L then (kr2_absorb m (last xs), last xs) else (m, b))"
    unfolding R_def L_def by (rule kr2_merge_lower_ring [OF ring])
  show "snd R = (if L then last xs else b)" by (simp add: ml)
  show "kr2_ring (fst R) lo ((if L then xs else xs @ [b]) @ ys) hi"
  proof (cases L)
    case True
    then obtain xs' l where xs: "xs = xs' @ [l]" by (cases xs rule: rev_cases) (auto simp: L_def)
    from ring have "kr2_ring m lo (xs' @ l # b # ys) hi" by (simp add: xs)
    from kr2_ring_absorb [OF this] True show ?thesis by (simp add: ml xs)
  next
    case False
    with ring show ?thesis by (simp add: ml)
  qed
  show "k_isFree (fst R c) = k_isFree (m c)"
  proof (cases L)
    case True
    then obtain xs' l where xs: "xs = xs' @ [l]" by (cases xs rule: rev_cases) (auto simp: L_def)
    from ring have "kr2_ring m lo (xs' @ l # b # ys) hi" by (simp add: xs)
    from kr2_absorb_fields(2) [OF this] True show ?thesis by (simp add: ml xs)
  next
    case False
    then show ?thesis by (simp add: ml)
  qed
  show "k_size (fst R (snd R)) = (if L then k_size (m (last xs)) else 0) + k_size (m b)"
  proof (cases L)
    case True
    then obtain xs' l where xs: "xs = xs' @ [l]" by (cases xs rule: rev_cases) (auto simp: L_def)
    from ring have "kr2_ring m lo (xs' @ l # b # ys) hi" by (simp add: xs)
    from kr2_absorb_fields(1) [OF this] True show ?thesis by (simp add: ml xs)
  next
    case False
    then show ?thesis by (simp add: ml)
  qed
  show "c \<noteq> snd R \<Longrightarrow> k_size (fst R c) = k_size (m c)"
  proof (cases L)
    case True
    assume c: "c \<noteq> snd R"
    from True obtain xs' l where xs: "xs = xs' @ [l]"
      by (cases xs rule: rev_cases) (auto simp: L_def)
    from ring have "kr2_ring m lo (xs' @ l # b # ys) hi" by (simp add: xs)
    from kr2_absorb_fields(3) [OF this, of c] c True show ?thesis by (simp add: ml xs)
  next
    case False
    then show ?thesis by (simp add: ml)
  qed
  show "c \<notin> set (xs @ b # ys) \<Longrightarrow> c \<noteq> kr2_base \<Longrightarrow> fst R c = m c"
  proof (cases L)
    case True
    assume c: "c \<notin> set (xs @ b # ys)" "c \<noteq> kr2_base"
    from True obtain xs' l where xs: "xs = xs' @ [l]"
      by (cases xs rule: rev_cases) (auto simp: L_def)
    from ring have "kr2_ring m lo (xs' @ l # b # ys) hi" by (simp add: xs)
    from kr2_absorb_fields(4) [OF this, of c] c True show ?thesis by (simp add: ml xs)
  next
    case False
    then show ?thesis by (simp add: ml)
  qed
qed

lemma kr2_no_adjacent_tl: "kr2_no_adjacent m (y # ys) \<Longrightarrow> kr2_no_adjacent m ys"
  by (cases ys) simp_all

lemma kr2_free_no_adjacent:
  assumes na: "kr2_no_adjacent m (xs @ b # ys)"
    and nf: "\<not> k_isFree (m b)"
    and fl: "\<And>c. k_isFree (m' c) = (c = b \<or> k_isFree (m c))"
    and bx: "b \<notin> set xs" and "b \<notin> set ys"
  shows "kr2_no_adjacent m' (kr2_free_blocks m xs b ys)"
proof -
  from na have nxs: "kr2_no_adjacent m xs" and nbys: "kr2_no_adjacent m (b # ys)"
    by (simp_all add: kr2_no_adjacent_append)
  from nbys have nys: "kr2_no_adjacent m ys" by (rule kr2_no_adjacent_tl)
  then have ntl: "kr2_no_adjacent m (tl ys)" by (cases ys) (simp_all add: kr2_no_adjacent_tl)
  have xs': "kr2_no_adjacent m' xs"
    by (rule kr2_no_adjacent_mono [OF nxs]) (use bx fl in auto)
  have ys': "kr2_no_adjacent m' ys"
    by (rule kr2_no_adjacent_mono [OF nys]) (use assms(5) fl in auto)
  have tlsub: "set (tl ys) \<subseteq> set ys" by (cases ys) auto
  have tl': "kr2_no_adjacent m' (tl ys)"
    by (rule kr2_no_adjacent_mono [OF ntl]) (use assms(5) fl tlsub in auto)
  have hdtl: "ys \<noteq> [] \<Longrightarrow> tl ys \<noteq> [] \<Longrightarrow> k_isFree (m (hd ys)) \<Longrightarrow> \<not> k_isFree (m' (hd (tl ys)))"
  proof -
    assume a: "ys \<noteq> []" "tl ys \<noteq> []" "k_isFree (m (hd ys))"
    then obtain u z zs where ys: "ys = u # z # zs" by (cases ys; cases "tl ys") auto
    with nys a have "\<not> k_isFree (m z)" by simp
    moreover from assms(5) ys have "z \<noteq> b" by auto
    ultimately show ?thesis by (simp add: fl ys)
  qed
  have hdys: "ys \<noteq> [] \<Longrightarrow> hd ys \<noteq> b" using assms(5) by (cases ys) auto
  have lastxs: "xs \<noteq> [] \<Longrightarrow> last xs \<noteq> b" using bx by (cases xs rule: rev_cases) auto
  show ?thesis
    unfolding kr2_free_blocks_def
    using xs' ys' tl' hdtl hdys lastxs
    by (auto simp add: kr2_no_adjacent_append fl)
qed

lemma kr2_free_tail:
  assumes ring: "kr2_ring m lo (xs @ b # ys) hi"
    and nf: "\<not> k_isFree (m b)"
  defines "L \<equiv> xs \<noteq> [] \<and> k_isFree (m (last xs))"
  defines "U \<equiv> ys \<noteq> [] \<and> k_isFree (m (hd ys))"
  defines "R \<equiv> kr2_free_mem m b"
  shows "kr2_ring (fst R) lo (kr2_free_blocks m xs b ys) hi"
    and "snd R = (if L then last xs else b)"
    and "k_isFree (fst R c) = (c = b \<or> k_isFree (m c))"
    and "k_size (fst R (snd R)) =
           (if L then k_size (m (last xs)) else 0) + k_size (m b) +
           (if U then k_size (m (hd ys)) else 0)"
    and "c \<noteq> snd R \<Longrightarrow> c \<noteq> b \<Longrightarrow> k_size (fst R c) = k_size (m c)"
    and "c \<notin> set (xs @ b # ys) \<Longrightarrow> c \<noteq> kr2_base \<Longrightarrow> fst R c = m c"
proof -
  note f = kr2_ring_facts [OF ring]
  define m2 where "m2 = m(b := (m b)\<lparr>k_isFree := True\<rparr>)"
  define m3 where "m3 = kr2_merge_upper m2 b"
  have R: "R = kr2_merge_lower m3 b" by (simp add: R_def kr2_free_mem_def m3_def m2_def)
  have ring2: "kr2_ring m2 lo (xs @ b # ys) hi"
    unfolding m2_def using ring f(11) by (intro kr2_ring_flag) auto
  have hdys: "ys \<noteq> [] \<Longrightarrow> hd ys \<noteq> b" using f(8) by (cases ys) auto
  have lastxs: "xs \<noteq> [] \<Longrightarrow> last xs \<noteq> b" using f(7) by (cases xs rule: rev_cases) auto
  have U2: "(ys \<noteq> [] \<and> k_isFree (m2 (hd ys))) = U"
    using hdys by (auto simp: U_def m2_def)
  note u = kr2_upper_step [OF ring2, folded m3_def, unfolded U2]
  have L3: "(xs \<noteq> [] \<and> k_isFree (m3 (last xs))) = L"
    using lastxs by (auto simp: L_def u(2) m2_def)
  note l = kr2_lower_step [OF u(1), folded R, unfolded L3]
  show "kr2_ring (fst R) lo (kr2_free_blocks m xs b ys) hi"
    using l(1) by (simp add: kr2_free_blocks_def L_def U_def)
  show sR: "snd R = (if L then last xs else b)" by (rule l(2))
  show "k_isFree (fst R c) = (c = b \<or> k_isFree (m c))"
    by (simp add: l(3) u(2) m2_def)
  have s3: "k_size (m3 b) = k_size (m b) + (if U then k_size (m (hd ys)) else 0)"
    using u(3) hdys by (auto simp: m2_def U_def)
  have s3': "c \<noteq> b \<Longrightarrow> k_size (m3 c) = k_size (m c)" for c
    using u(4) [of c] by (simp add: m2_def)
  show "k_size (fst R (snd R)) =
           (if L then k_size (m (last xs)) else 0) + k_size (m b) +
           (if U then k_size (m (hd ys)) else 0)"
    using l(4) s3 s3' [of "last xs"] lastxs by (auto simp: L_def)
  show "c \<noteq> snd R \<Longrightarrow> c \<noteq> b \<Longrightarrow> k_size (fst R c) = k_size (m c)"
    using l(5) [of c] s3' [of c] by simp
  show "c \<notin> set (xs @ b # ys) \<Longrightarrow> c \<noteq> kr2_base \<Longrightarrow> fst R c = m c"
  proof -
    assume c: "c \<notin> set (xs @ b # ys)" "c \<noteq> kr2_base"
    have sub: "set (xs @ b # (if U then tl ys else ys)) \<subseteq> set (xs @ b # ys)"
      by (cases ys) auto
    with c have "c \<notin> set (xs @ b # (if U then tl ys else ys))" by blast
    from l(6) [OF this c(2)] u(5) [OF c] c show ?thesis by (simp add: m2_def)
  qed
qed

lemma kr2_free_blocks_mem:
  assumes "b \<notin> set xs" "b \<notin> set ys"
  shows "(if xs \<noteq> [] \<and> k_isFree (m (last xs)) then last xs else b) \<in> set (kr2_free_blocks m xs b ys)"
    and "set (kr2_free_blocks m xs b ys) \<subseteq> set (xs @ b # ys)"
    and "c \<in> set (xs @ ys) \<Longrightarrow> \<not> k_isFree (m c) \<Longrightarrow> c \<in> set (kr2_free_blocks m xs b ys)"
proof -
  show "(if xs \<noteq> [] \<and> k_isFree (m (last xs)) then last xs else b) \<in> set (kr2_free_blocks m xs b ys)"
    by (auto simp: kr2_free_blocks_def)
  show "set (kr2_free_blocks m xs b ys) \<subseteq> set (xs @ b # ys)"
    by (cases ys) (auto simp: kr2_free_blocks_def)
  show "c \<in> set (xs @ ys) \<Longrightarrow> \<not> k_isFree (m c) \<Longrightarrow> c \<in> set (kr2_free_blocks m xs b ys)"
    by (cases ys) (auto simp: kr2_free_blocks_def)
qed

text \<open>The block before a block of the ring is on the ring, and is linked to it.\<close>

lemma kr2_ring_prev:
  assumes ring: "kr2_ring m lo bs hi" and x: "x \<in> set bs"
  shows "k_prev (m x) \<in> set (kr2_base # bs)" and "k_next (m (k_prev (m x))) = x"
proof -
  from x obtain xs ys where bs: "bs = xs @ x # ys" by (auto dest: split_list)
  note r = kr2_ring_splitD [OF ring [unfolded bs]]
  show "k_prev (m x) \<in> set (kr2_base # bs)"
    by (cases xs rule: rev_cases) (simp_all add: r(3) bs)
  show "k_next (m (k_prev (m x))) = x" using r(2,3) by simp
qed

lemma kr2_mm_free_eq:
  assumes "ap \<noteq> NULL" and "0 < k_size (k_mem s (kr2_mm_block ap))"
    and "kr2_mm_bytes (k_size (k_mem s (kr2_mm_block ap))) \<le> mem_heapsize (k_arena s)"
    and "k_next (k_mem s (kr2_mm_block ap)) \<noteq> NULL"
  shows "kr2_mm_free s ap =
         Some (Inr (s\<lparr>k_mem := fst (kr2_free_mem (k_mem s) (kr2_mm_block ap)),
                      k_freep := k_prev (fst (kr2_free_mem (k_mem s) (kr2_mm_block ap))
                                   (snd (kr2_free_mem (k_mem s) (kr2_mm_block ap))))\<rparr>))"
  using assms by (simp add: kr2_mm_free_def kr2_free_mem_def Let_def split: prod.splits)

lemma kr2_inv_arena:
  assumes "kr2_inv s bs"
  shows "kr2_sizeof_Header * kr2_lo s = heap_lo (k_arena s)"
    and "kr2_sizeof_Header * (kr2_top s - kr2_lo s) = mem_brk (k_arena s)"
    and "mem_brk (k_arena s) \<le> mem_max (k_arena s)"
    and "heap_lo (k_arena s) + mem_max (k_arena s) < 2 ^ 64"
    and "kr2_lo s \<le> kr2_top s"
  using assms by (auto simp add: kr2_inv_def arena_ok_def kr2_lo_def kr2_top_def)

lemma kr2_block_bytes:
  assumes inv: "kr2_inv s (xs @ b # ys)"
  shows "kr2_mm_bytes (k_size (k_mem s b)) \<le> mem_heapsize (k_arena s)"
    and "0 < k_size (k_mem s b)" and "k_next (k_mem s b) \<noteq> NULL"
proof -
  from inv have ring: "kr2_ring (k_mem s) (kr2_lo s) (xs @ b # ys) (kr2_top s)"
    by (simp add: kr2_inv_def)
  note f = kr2_ring_facts [OF ring]
  note a = kr2_inv_arena [OF inv]
  from f(3,4) have "k_size (k_mem s b) \<le> kr2_top s - kr2_lo s" by simp
  then have "kr2_sizeof_Header * k_size (k_mem s b) \<le> kr2_sizeof_Header * (kr2_top s - kr2_lo s)"
    by (rule mult_le_mono2)
  with a(2) have le: "k_size (k_mem s b) * kr2_sizeof_Header \<le> mem_brk (k_arena s)"
    by (simp add: mult.commute)
  with a(3,4) have "k_size (k_mem s b) * kr2_sizeof_Header < 2 ^ 64" by linarith
  with le show "kr2_mm_bytes (k_size (k_mem s b)) \<le> mem_heapsize (k_arena s)"
    by (simp add: kr2_mm_bytes_def size_t_def mem_heapsize_def)
  show "0 < k_size (k_mem s b)" by (rule f(6))
  have "k_next (k_mem s b) = hd (ys @ [kr2_base])" by (rule kr2_ring_next [OF ring])
  with f(2,3,5,6) show "k_next (k_mem s b) \<noteq> NULL"
    by (cases ys) (auto simp: kr2_base_def)
qed

lemma kr2_free_inv:
  assumes inv: "kr2_inv s (xs @ b # ys)" and nf: "\<not> k_isFree (k_mem s b)"
  defines "R \<equiv> kr2_free_mem (k_mem s) b"
  defines "s' \<equiv> s\<lparr>k_mem := fst R, k_freep := k_prev (fst R (snd R))\<rparr>"
  shows "kr2_mm_free s (kr2_mm_payload b) = Some (Inr s')"
    and "kr2_inv s' (kr2_free_blocks (k_mem s) xs b ys)"
    and "kr2_keeps ((k_mem s)(b := (k_mem s b)\<lparr>k_isFree := True\<rparr>)) (xs @ b # ys)
           (k_mem s') (kr2_free_blocks (k_mem s) xs b ys)"
proof -
  from inv have ring: "kr2_ring (k_mem s) (kr2_lo s) (xs @ b # ys) (kr2_top s)"
    and na: "kr2_no_adjacent (k_mem s) (xs @ b # ys)"
    by (simp_all add: kr2_inv_def)
  note f = kr2_ring_facts [OF ring]
  note t = kr2_free_tail [OF ring nf, folded R_def]
  note bb = kr2_block_bytes [OF inv]
  have pb: "kr2_mm_block (kr2_mm_payload b) = b" "kr2_mm_payload b \<noteq> NULL"
    by (simp_all add: kr2_mm_block_def kr2_mm_payload_def)
  show "kr2_mm_free s (kr2_mm_payload b) = Some (Inr s')"
    using kr2_mm_free_eq [of "kr2_mm_payload b" s] bb
    by (simp add: pb s'_def R_def)
  have fin: "snd R \<in> set (kr2_free_blocks (k_mem s) xs b ys)"
    using kr2_free_blocks_mem(1) [OF f(7,8)] by (simp add: t(2))
  have na': "kr2_no_adjacent (fst R) (kr2_free_blocks (k_mem s) xs b ys)"
    by (rule kr2_free_no_adjacent [OF na nf _ f(7,8)]) (rule t(3))
  from inv kr2_ring_prev(1) [OF t(1) fin] t(1) na'
  show "kr2_inv s' (kr2_free_blocks (k_mem s) xs b ys)"
    by (simp add: kr2_inv_def s'_def kr2_lo_def kr2_top_def)
  have ringb: "kr2_ring ((k_mem s)(b := (k_mem s b)\<lparr>k_isFree := True\<rparr>)) (kr2_lo s)
      (xs @ b # ys) (kr2_top s)"
    using ring f(11) by (intro kr2_ring_flag) auto
  show "kr2_keeps ((k_mem s)(b := (k_mem s b)\<lparr>k_isFree := True\<rparr>)) (xs @ b # ys)
           (k_mem s') (kr2_free_blocks (k_mem s) xs b ys)"
  proof (rule kr2_keeps_frame [OF ringb, where W = "{}"])
    fix c
    assume c: "c \<in> set (xs @ b # ys)"
      and a: "\<not> k_isFree (((k_mem s)(b := (k_mem s b)\<lparr>k_isFree := True\<rparr>)) c)"
    from a have cb: "c \<noteq> b" by auto
    with a have ca: "\<not> k_isFree (k_mem s c)" by simp
    from c cb have cxy: "c \<in> set (xs @ ys)" by auto
    have cR: "c \<noteq> snd R"
    proof
      assume "c = snd R"
      with t(2) cb have "c = last xs" "xs \<noteq> []" "k_isFree (k_mem s (last xs))"
        by (auto split: if_splits)
      with ca show False by simp
    qed
    have 1: "c \<in> set (kr2_free_blocks (k_mem s) xs b ys)"
      using kr2_free_blocks_mem(3) [where m = "k_mem s" and b = b and xs = xs and ys = ys and c = c]
        f(7,8) cxy ca by blast
    have 2: "\<not> k_isFree (k_mem s' c)" using t(3) [of c] cb ca by (simp add: s'_def)
    have 3: "k_size (k_mem s' c) = k_size (((k_mem s)(b := (k_mem s b)\<lparr>k_isFree := True\<rparr>)) c)"
      using t(5) [OF cR cb] cb by (simp add: s'_def)
    from 1 2 3 show "c \<in> set (kr2_free_blocks (k_mem s) xs b ys) \<and> \<not> k_isFree (k_mem s' c) \<and>
      k_size (k_mem s' c) = k_size (((k_mem s)(b := (k_mem s b)\<lparr>k_isFree := True\<rparr>)) c)"
      by simp
  next
    fix c
    assume c: "c \<notin> set (xs @ b # ys)" "c \<noteq> kr2_base"
    then have "c \<noteq> b" by auto
    with t(6) [OF c] show "k_mem s' c = ((k_mem s)(b := (k_mem s b)\<lparr>k_isFree := True\<rparr>)) c"
      by (simp add: s'_def)
  qed simp
qed

lemma kr2_take_mem:
  assumes n: "nunits < k_size (k_mem s p)"
    and nx: "k_next (k_mem s p) \<noteq> p"
      "k_next (k_mem s p) \<noteq> p + (k_size (k_mem s p) - nunits)"
  shows "k_mem (fst (kr2_take s prev_p p nunits)) =
         (\<lambda>x. if x = p then (k_mem s p)\<lparr>k_size := k_size (k_mem s p) - nunits,
                                        k_next := p + (k_size (k_mem s p) - nunits)\<rparr>
              else if x = p + (k_size (k_mem s p) - nunits)
              then (k_mem s (p + (k_size (k_mem s p) - nunits)))
                     \<lparr>k_size := nunits, k_prev := p, k_next := k_next (k_mem s p),
                      k_isFree := False\<rparr>
              else if x = k_next (k_mem s p) then (k_mem s x)\<lparr>k_prev := p + (k_size (k_mem s p) - nunits)\<rparr>
              else k_mem s x)"
proof -
  define d where "d = k_size (k_mem s p) - nunits - 1"
  with n have d: "k_size (k_mem s p) = nunits + Suc d" by simp
  from nx have nx': "k_next (k_mem s p) \<noteq> p" "k_next (k_mem s p) \<noteq> Suc (p + d)"
    by (simp_all add: d)
  show ?thesis
    using nx' by (simp add: kr2_take_def connect_dlinkedlist_def Let_def d fun_eq_iff)
qed

lemma kr2_take_inv:
  assumes inv: "kr2_inv s (xs @ p # ys)" and fr: "k_isFree (k_mem s p)"
    and n: "0 < nunits" "nunits \<le> k_size (k_mem s p)"
    and pp: "prev_p = k_prev (k_mem s p)"
  defines "r \<equiv> kr2_take s prev_p p nunits"
  defines "bs' \<equiv> (if k_size (k_mem s p) = nunits then xs @ p # ys
                  else xs @ p # (p + (k_size (k_mem s p) - nunits)) # ys)"
  shows "kr2_inv (fst r) bs'"
    and "kr2_mm_block (snd r) \<in> set bs'"
    and "snd r \<noteq> NULL"
    and "\<not> k_isFree (k_mem (fst r) (kr2_mm_block (snd r)))"
    and "kr2_keeps (k_mem s) (xs @ p # ys) (k_mem (fst r)) bs'"
    and "kr2_mm_block (snd r) = p \<or> kr2_mm_block (snd r) \<notin> set (xs @ p # ys)"
    and "k_arena (fst r) = k_arena s" and "k_errno (fst r) = k_errno s"
proof -
  from inv have ring: "kr2_ring (k_mem s) (kr2_lo s) (xs @ p # ys) (kr2_top s)"
    and na: "kr2_no_adjacent (k_mem s) (xs @ p # ys)"
    by (simp_all add: kr2_inv_def)
  note f = kr2_ring_facts [OF ring]
  have pin: "p \<in> set (xs @ p # ys)" by simp
  have ppin: "prev_p \<in> set (kr2_base # xs @ p # ys)"
    using kr2_ring_prev(1) [OF ring pin] by (simp add: pp)
  have ar: "k_arena (fst r) = k_arena s" "k_errno (fst r) = k_errno s"
    by (simp_all add: r_def kr2_take_def Let_def)
  show "k_arena (fst r) = k_arena s" "k_errno (fst r) = k_errno s" by (rule ar)+
  show "snd r \<noteq> NULL" by (simp add: r_def kr2_take_def kr2_mm_payload_def Let_def)
  show "\<not> k_isFree (k_mem (fst r) (kr2_mm_block (snd r)))"
    by (simp add: r_def kr2_take_def kr2_mm_payload_def kr2_mm_block_def Let_def)
  consider (exact) "k_size (k_mem s p) = nunits" | (split) "nunits < k_size (k_mem s p)"
    using n by linarith
  then have "kr2_inv (fst r) bs' \<and> kr2_mm_block (snd r) \<in> set bs' \<and>
      kr2_keeps (k_mem s) (xs @ p # ys) (k_mem (fst r)) bs' \<and>
      (kr2_mm_block (snd r) = p \<or> kr2_mm_block (snd r) \<notin> set (xs @ p # ys))"
  proof cases
    case exact
    have m': "k_mem (fst r) = (k_mem s)(p := (k_mem s p)\<lparr>k_isFree := False\<rparr>)"
      and fp: "k_freep (fst r) = prev_p" and sr: "kr2_mm_block (snd r) = p"
      using exact by (simp_all add: r_def kr2_take_def kr2_mm_block_def kr2_mm_payload_def)
    have bs': "bs' = xs @ p # ys" using exact by (simp add: bs'_def)
    have ring': "kr2_ring (k_mem (fst r)) (kr2_lo s) (xs @ p # ys) (kr2_top s)"
      unfolding m' using ring f(11) by (intro kr2_ring_flag) auto
    have na': "kr2_no_adjacent (k_mem (fst r)) (xs @ p # ys)"
      by (rule kr2_no_adjacent_mono [OF na]) (simp add: m')
    have k: "kr2_keeps (k_mem s) (xs @ p # ys) (k_mem (fst r)) (xs @ p # ys)"
      by (rule kr2_keeps_frame [OF ring, where W = "{}"]) (use fr in \<open>auto simp add: m'\<close>)
    from inv ring' na' ppin k sr show ?thesis
      by (simp add: kr2_inv_def bs' fp ar kr2_lo_def kr2_top_def)
  next
    case split
    define n' where "n' = k_size (k_mem s p) - nunits"
    from split n have n': "0 < n'" "n' < k_size (k_mem s p)" "k_size (k_mem s p) - n' = nunits"
      by (simp_all add: n'_def)
    have bs': "bs' = xs @ p # (p + n') # ys" using split by (simp add: bs'_def n'_def)
    have nx: "k_next (k_mem s p) = hd (ys @ [kr2_base])" by (rule kr2_ring_next [OF ring])
    have p'xs: "p + n' \<notin> set xs" using f(1) n' by auto
    have p'ys: "p + n' \<notin> set ys" using f(2) n' by auto
    have p'b: "p + n' \<noteq> kr2_base" using f(3,5) by auto
    have nxp: "k_next (k_mem s p) \<noteq> p" using nx f(8,11) by (cases ys) auto
    have nxp': "k_next (k_mem s p) \<noteq> p + n'" using nx p'ys p'b by (cases ys) auto
    note m' = kr2_take_mem [OF split nxp nxp' [unfolded n'_def], of prev_p, folded r_def n'_def]
    have fp: "k_freep (fst r) = prev_p" and sr: "kr2_mm_block (snd r) = p + n'"
      using split by (simp_all add: r_def kr2_take_def kr2_mm_block_def kr2_mm_payload_def
          Let_def n'_def)
    have ring': "kr2_ring (k_mem (fst r)) (kr2_lo s) (xs @ p # (p + n') # ys) (kr2_top s)"
      by (rule kr2_ring_insert [OF ring n'(1,2) m']) (simp_all add: n')
    have fl: "\<forall>x\<in>set (xs @ p # ys). k_isFree (k_mem (fst r) x) \<longrightarrow> k_isFree (k_mem s x)"
      using p'xs p'ys n'(1) by (auto simp add: m')
    have na0: "kr2_no_adjacent (k_mem (fst r)) ((xs @ [p]) @ ys)"
      using kr2_no_adjacent_mono [OF na fl] by simp
    have "kr2_no_adjacent (k_mem (fst r)) ((xs @ [p]) @ (p + n') # ys)"
      by (rule kr2_no_adjacent_insert [OF na0]) (use n'(1) in \<open>simp add: m'\<close>)
    then have na': "kr2_no_adjacent (k_mem (fst r)) (xs @ p # (p + n') # ys)" by simp
    have k: "kr2_keeps (k_mem s) (xs @ p # ys) (k_mem (fst r)) (xs @ p # (p + n') # ys)"
    proof (rule kr2_keeps_frame [OF ring, where W = "{p + n'}"])
      fix c
      assume c: "c \<in> set (xs @ p # ys)" and a: "\<not> k_isFree (k_mem s c)"
      from a fr have cp: "c \<noteq> p" by auto
      from c p'xs p'ys cp have cp': "c \<noteq> p + n'" by auto
      from c have 1: "c \<in> set (xs @ p # (p + n') # ys)" by auto
      from a cp cp' have 2: "\<not> k_isFree (k_mem (fst r) c)" by (auto simp add: m')
      from cp cp' have 3: "k_size (k_mem (fst r) c) = k_size (k_mem s c)" by (auto simp add: m')
      from 1 2 3 show "c \<in> set (xs @ p # (p + n') # ys) \<and> \<not> k_isFree (k_mem (fst r) c) \<and>
        k_size (k_mem (fst r) c) = k_size (k_mem s c)" by simp
    next
      fix c
      assume "c \<notin> set (xs @ p # ys)" "c \<noteq> kr2_base" "c \<notin> {p + n'}"
      then have "c \<noteq> p" "c \<noteq> p + n'" "c \<notin> set ys" "c \<noteq> kr2_base" by auto
      then have "c \<noteq> k_next (k_mem s p)" using nx by (cases ys) auto
      with \<open>c \<noteq> p\<close> \<open>c \<noteq> p + n'\<close> show "k_mem (fst r) c = k_mem s c" by (simp add: m')
    next
      fix w c
      assume w: "w \<in> {p + n'}" and c: "c \<in> set (xs @ p # ys)" and a: "\<not> k_isFree (k_mem s c)"
      from a fr have cp: "c \<noteq> p" by auto
      with c consider "c \<in> set xs" | "c \<in> set ys" by auto
      then show "\<not> (c < w \<and> w < c + k_size (k_mem s c))"
      proof cases
        case 1
        from kr2_ring_before [OF ring 1] w show ?thesis by auto
      next
        case 2
        with f(2) n'(2) w show ?thesis by auto
      qed
    qed
    have fresh: "p + n' \<notin> set (xs @ p # ys)" using p'xs p'ys n'(1) by auto
    from inv ring' na' ppin k sr fresh show ?thesis
      by (auto simp add: kr2_inv_def bs' fp ar kr2_lo_def kr2_top_def)
  qed
  then show "kr2_inv (fst r) bs'" and "kr2_mm_block (snd r) \<in> set bs'"
    and "kr2_keeps (k_mem s) (xs @ p # ys) (k_mem (fst r)) bs'"
    and "kr2_mm_block (snd r) = p \<or> kr2_mm_block (snd r) \<notin> set (xs @ p # ys)"
    by blast+
qed

lemma kr2_ring_outside:
  assumes ring: "kr2_ring m lo bs hi" and c: "c \<notin> set bs" "c \<noteq> kr2_base"
  shows "kr2_ring (m(c := h)) lo bs hi"
proof -
  have "kr2_seg (m(c := h)) kr2_base lo bs hi = kr2_seg m kr2_base lo bs hi"
    using c by (intro kr2_seg_cong) auto
  moreover have "last (kr2_base # bs) \<noteq> c"
  proof (cases "bs = []")
    case True
    with c show ?thesis by simp
  next
    case False
    then have "last bs \<in> set bs" by simp
    with c False show ?thesis by auto
  qed
  ultimately show ?thesis using ring c by (auto simp add: kr2_ring_def)
qed

lemma kr2_ring_not_null:
  assumes "kr2_ring m lo bs hi" and "x \<in> set (kr2_base # bs)"
  shows "x \<noteq> NULL"
proof (cases "x = kr2_base")
  case True
  then show ?thesis by (simp add: kr2_base_def)
next
  case False
  with assms(2) obtain xs ys where bs: "bs = xs @ x # ys" by (auto dest: split_list)
  from kr2_ring_facts(3,5) [OF assms(1) [unfolded bs]] show ?thesis by simp
qed

lemma connect_dlinkedlist_fields:
  "k_isFree (connect_dlinkedlist m p n c) = k_isFree (m c)"
  "k_size (connect_dlinkedlist m p n c) = k_size (m c)"
  "c \<noteq> p \<Longrightarrow> c \<noteq> n \<Longrightarrow> connect_dlinkedlist m p n c = m c"
  by (simp_all add: connect_dlinkedlist_def Let_def)

text \<open>
  \<^verbatim>\<open>morecore\<close> when \<^verbatim>\<open>mem_sbrk\<close> succeeds: the new block is appended and freed, the
  pointer returned is the predecessor of a free block of at least \<open>nunits\<close> cells.
\<close>

lemma kr2_morecore_inv:
  assumes inv: "kr2_inv s bs" and nu0: "0 < nunits" "nunits * kr2_sizeof_Header < 2 ^ 64"
    and ok: "mem_brk (k_arena s) +
             kr2_mm_bytes (max nunits (mem_pagesize (k_arena s) div kr2_sizeof_Header))
             \<le> mem_max (k_arena s)"
  shows "\<exists>s' bs'. kr2_morecore s nunits = Some (Inr (s', k_freep s')) \<and>
           kr2_inv s' bs' \<and> k_freep s' \<noteq> NULL \<and>
           k_next (k_mem s' (k_freep s')) \<in> set bs' \<and>
           k_isFree (k_mem s' (k_next (k_mem s' (k_freep s')))) \<and>
           nunits \<le> k_size (k_mem s' (k_next (k_mem s' (k_freep s')))) \<and>
           k_prev (k_mem s' (k_next (k_mem s' (k_freep s')))) = k_freep s' \<and>
           kr2_keeps (k_mem s) bs (k_mem s') bs' \<and> k_errno s' = k_errno s \<and>
           mem_max (k_arena s') = mem_max (k_arena s) \<and>
           mem_brk (k_arena s) < mem_brk (k_arena s')"
proof -
  define nu where "nu = max nunits (mem_pagesize (k_arena s) div kr2_sizeof_Header)"
  define hi where "hi = kr2_top s"
  define lo where "lo = kr2_lo s"
  define a' where "a' = (k_arena s)\<lparr>mem_brk := mem_brk (k_arena s) + nu * 32\<rparr>"
  define m0 where
    "m0 = (k_mem s)(hi := (k_mem s hi)\<lparr>k_size := nu, k_prev := NULL, k_next := NULL\<rparr>)"
  define pl where "pl = last (kr2_base # bs)"
  define m1 where
    "m1 = connect_dlinkedlist (connect_dlinkedlist m0 pl hi) hi (k_next (m0 pl))"
  define m1f where "m1f = m1(hi := (m1 hi)\<lparr>k_isFree := False\<rparr>)"
  define R where "R = kr2_free_mem m1 hi"
  define s' where
    "s' = s\<lparr>k_arena := a', k_mem := fst R, k_freep := k_prev (fst R (snd R))\<rparr>"
  define bs' where "bs' = kr2_free_blocks m1f bs hi []"
  from inv have ring: "kr2_ring (k_mem s) lo bs hi" and na: "kr2_no_adjacent (k_mem s) bs"
    and fp: "k_freep s \<in> set (kr2_base # bs)"
    and ar: "arena_ok kr2_sizeof_Header (k_arena s)"
    and lo2: "2 * kr2_sizeof_Header \<le> heap_lo (k_arena s)"
    by (simp_all add: kr2_inv_def lo_def hi_def)
  note ia = kr2_inv_arena [OF inv, folded lo_def hi_def, unfolded kr2_sizeof_Header_def]
  have p64: "(2::nat) ^ 64 = 32 * 2 ^ 59" by simp
  have nub: "nu * 32 < 2 ^ 64"
  proof (cases "nunits < mem_pagesize (k_arena s) div kr2_sizeof_Header")
    case True
    then have "nu = pagesz (k_arena s) div 32"
      by (simp add: nu_def mem_pagesize_def kr2_sizeof_Header_def max_def)
    moreover have "pagesz (k_arena s) div 32 * 32 \<le> pagesz (k_arena s)" by simp
    moreover from ar have "pagesz (k_arena s) < 2 ^ 64" by (simp add: arena_ok_def)
    ultimately show ?thesis by linarith
  next
    case False
    then have "nu = nunits" by (simp add: nu_def max_def)
    with nu0 show ?thesis by (simp add: kr2_sizeof_Header_def)
  qed
  then have bytes: "kr2_mm_bytes nu = nu * 32"
    by (simp add: kr2_mm_bytes_def size_t_def kr2_sizeof_Header_def)
  have nupos: "0 < nu" and nule: "nunits \<le> nu" using nu0 by (simp_all add: nu_def)
  from ok have ok': "mem_brk (k_arena s) + nu * 32 \<le> mem_max (k_arena s)"
    unfolding nu_def [symmetric] bytes .
  from ia have hi32: "32 * hi = heap_lo (k_arena s) + mem_brk (k_arena s)" by auto
  then have e: "32 * (hi + nu) = heap_lo (k_arena s) + mem_brk (k_arena s) + nu * 32"
    by (simp add: algebra_simps)
  have "heap_lo (k_arena s) + mem_brk (k_arena s) + nu * 32 \<le>
        heap_lo (k_arena s) + mem_max (k_arena s)" using ok' by simp
  from this ia(4) have "32 * (hi + nu) < 2 ^ 64" unfolding e by (rule le_less_trans)
  then have "32 * (hi + nu) < 32 * 2 ^ 59" by (simp only: p64)
  then have hin: "hi + nu < 2 ^ 59" by simp
  from hi32 have bp: "(heap_lo (k_arena s) + mem_brk (k_arena s)) div 32 = hi"
    by (metis nonzero_mult_div_cancel_left zero_neq_numeral)
  have hib: "hi \<notin> set bs" "hi \<noteq> kr2_base"
  proof -
    from ring have sg: "kr2_seg (k_mem s) kr2_base lo bs hi" and bl: "kr2_base < lo"
      by (simp_all add: kr2_ring_def)
    from kr2_seg_bounds [OF sg] show "hi \<notin> set bs" by fastforce
    from ia(5) bl show "hi \<noteq> kr2_base" by simp
  qed
  have ring0: "kr2_ring m0 lo bs hi" unfolding m0_def by (rule kr2_ring_outside [OF ring hib])
  have lb: "kr2_last_block m0 (k_freep s) = Some pl"
    unfolding pl_def by (rule kr2_last_block_ring [OF ring0 fp])
  have ring1: "kr2_ring m1 lo (bs @ [hi]) (hi + nu)"
    unfolding m1_def pl_def m0_def by (rule kr2_ring_append [OF ring nupos hin])
  have ring1f: "kr2_ring m1f lo (bs @ hi # []) (hi + nu)"
    unfolding m1f_def using ring1 hib(2) by (intro kr2_ring_flag) simp_all
  have Rf: "kr2_free_mem m1f hi = R" by (simp add: R_def kr2_free_mem_def m1f_def)
  have nf: "\<not> k_isFree (m1f hi)" by (simp add: m1f_def)
  note t = kr2_free_tail [OF ring1f nf, unfolded Rf]
  have fl1: "c \<noteq> hi \<Longrightarrow> k_isFree (m1f c) = k_isFree (k_mem s c)" for c
    by (simp add: m1f_def m1_def connect_dlinkedlist_fields m0_def)
  have sz1: "c \<noteq> hi \<Longrightarrow> k_size (m1f c) = k_size (k_mem s c)" for c
    by (simp add: m1f_def m1_def connect_dlinkedlist_fields m0_def)
  have szh: "k_size (m1f hi) = nu"
    by (simp add: m1f_def m1_def connect_dlinkedlist_fields m0_def)
  have "kr2_no_adjacent m1f bs"
  proof (rule kr2_no_adjacent_mono [OF na], intro ballI impI)
    fix x
    assume x: "x \<in> set bs" "k_isFree (m1f x)"
    with hib(1) have "x \<noteq> hi" by auto
    with fl1 [of x] x(2) show "k_isFree (k_mem s x)" by simp
  qed
  with nf have na1: "kr2_no_adjacent m1f (bs @ hi # [])"
    by (intro kr2_no_adjacent_insert) simp_all
  have na': "kr2_no_adjacent (fst R) bs'"
    unfolding bs'_def using t(3) hib(1) by (intro kr2_free_no_adjacent [OF na1 nf]) simp_all
  have sbrk: "mem_sbrk (k_arena s) (nu * 32) =
      (a', Some (heap_lo (k_arena s) + mem_brk (k_arena s)))"
    using ok' by (simp add: mem_sbrk_def a'_def)
  have free: "kr2_mm_free (s\<lparr>k_arena := a', k_mem := m0\<rparr>) (hi + 1) = Some (Inr s')"
    using nupos lb
    by (simp add: kr2_mm_free_def kr2_mm_block_def m0_def [symmetric] bytes mem_heapsize_def
        a'_def [symmetric] s'_def R_def kr2_free_mem_def m1_def Let_def split: prod.splits)
      (simp add: m0_def a'_def bytes)
  have ifmax: "(if nunits < mem_pagesize (k_arena s) div kr2_sizeof_Header
         then mem_pagesize (k_arena s) div kr2_sizeof_Header else nunits) = nu"
    by (simp add: max_def nu_def)
  have more: "kr2_morecore s nunits = Some (Inr (s', k_freep s'))"
    using free
    by (simp add: kr2_morecore_def Let_def ifmax [unfolded kr2_sizeof_Header_def] bytes sbrk
        kr2_sizeof_Header_def bp m0_def [symmetric] split del: if_split)
  have ar': "arena_ok kr2_sizeof_Header a'"
    using ar ok' by (simp add: arena_ok_def a'_def kr2_sizeof_Header_def)
  have lo': "kr2_lo s' = lo" by (simp add: kr2_lo_def s'_def a'_def lo_def)
  from ar have "32 dvd mem_brk (k_arena s)" by (simp add: arena_ok_def kr2_sizeof_Header_def)
  then have "(mem_brk (k_arena s) + nu * 32) div 32 = mem_brk (k_arena s) div 32 + nu"
    by (simp add: div_add)
  then have top': "kr2_top s' = hi + nu"
    by (simp add: kr2_top_def kr2_lo_def s'_def a'_def hi_def kr2_sizeof_Header_def)
  have sR: "snd R \<in> set bs'"
    unfolding bs'_def t(2) using hib(1) by (intro kr2_free_blocks_mem(1)) simp_all
  note pr = kr2_ring_prev [OF t(1) [folded bs'_def] sR]
  have inv': "kr2_inv s' bs'"
    unfolding kr2_inv_def lo' top'
    using ar' lo2 t(1) pr(1) na'
    by (simp add: s'_def a'_def bs'_def)
  have nn: "k_freep s' \<noteq> NULL"
    using kr2_ring_not_null [OF t(1) [folded bs'_def] pr(1)] by (simp add: s'_def)
  have nx: "k_next (k_mem s' (k_freep s')) = snd R" using pr(2) by (simp add: s'_def)
  have isf: "k_isFree (fst R (snd R))"
    unfolding t(3) t(2) using fl1 by (auto split: if_splits)
  have "nu \<le> k_size (fst R (snd R))" unfolding t(4) szh by simp
  with nule have szR: "nunits \<le> k_size (fst R (snd R))" by simp
  have keeps: "kr2_keeps (k_mem s) bs (fst R) bs'"
  proof (rule kr2_keeps_frame [OF ring, where W = "{hi}"])
    fix c
    assume c: "c \<in> set bs" and a: "\<not> k_isFree (k_mem s c)"
    from c hib have ch: "c \<noteq> hi" by auto
    with a have a1: "\<not> k_isFree (m1f c)" by (simp add: fl1)
    have cR: "c \<noteq> snd R"
    proof
      assume "c = snd R"
      with t(2) ch have "c = last bs" "k_isFree (m1f (last bs))" by (auto split: if_splits)
      with a1 show False by simp
    qed
    have 1: "c \<in> set bs'"
      unfolding bs'_def
      using kr2_free_blocks_mem(3) [where m = m1f and b = hi and xs = bs and ys = "[]" and c = c]
        hib(1) c a1 by simp
    have 2: "\<not> k_isFree (fst R c)" using t(3) [of c] ch a1 by simp
    have 3: "k_size (fst R c) = k_size (k_mem s c)" using t(5) [OF cR ch] ch by (simp add: sz1)
    from 1 2 3 show "c \<in> set bs' \<and> \<not> k_isFree (fst R c) \<and> k_size (fst R c) = k_size (k_mem s c)"
      by simp
  next
    fix c
    assume c: "c \<notin> set bs" "c \<noteq> kr2_base" "c \<notin> {hi}"
    then have cc: "c \<notin> set (bs @ hi # [])" by simp
    have "pl \<in> set (kr2_base # bs)" unfolding pl_def by (cases "bs = []") auto
    with c have cpl: "c \<noteq> pl" by auto
    have "k_next (m0 pl) = kr2_base"
      using ring0 by (simp add: kr2_ring_def pl_def)
    with c cpl have "m1f c = k_mem s c"
      by (simp add: m1f_def m1_def connect_dlinkedlist_fields m0_def)
    with t(6) [OF cc c(2)] show "fst R c = k_mem s c" by simp
  next
    fix w c
    assume "w \<in> {hi}" and c: "c \<in> set bs"
    then have w: "w = hi" by simp
    from c obtain xs ys where bs: "bs = xs @ c # ys" by (auto dest: split_list)
    from kr2_ring_facts(4) [OF ring [unfolded bs]] w
    show "\<not> (c < w \<and> w < c + k_size (k_mem s c))" by simp
  qed
  have "kr2_morecore s nunits = Some (Inr (s', k_freep s')) \<and>
           kr2_inv s' bs' \<and> k_freep s' \<noteq> NULL \<and>
           k_next (k_mem s' (k_freep s')) \<in> set bs' \<and>
           k_isFree (k_mem s' (k_next (k_mem s' (k_freep s')))) \<and>
           nunits \<le> k_size (k_mem s' (k_next (k_mem s' (k_freep s')))) \<and>
           k_prev (k_mem s' (k_next (k_mem s' (k_freep s')))) = k_freep s' \<and>
           kr2_keeps (k_mem s) bs (k_mem s') bs' \<and> k_errno s' = k_errno s \<and>
           mem_max (k_arena s') = mem_max (k_arena s) \<and>
           mem_brk (k_arena s) < mem_brk (k_arena s')"
    unfolding nx using more inv' nn sR isf szR keeps nupos
    by (simp add: s'_def a'_def)
  then show ?thesis by blast
qed

section \<open>The claims on single calls\<close>

text \<open>
  C1 (conservation: \<^verbatim>\<open>mm_getfree()\<close> plus the live allocations plus their headers is
  the size of the arena). The code does not keep it. In \<^verbatim>\<open>mm_heap_kr2.c\<close> the scan adds
  the size of every block from \<^verbatim>\<open>freep\<close> on, allocated or not: after \<^verbatim>\<open>mm_malloc(16)\<close> in
  a fresh process it answers 4096, the whole arena, while the block of 2 cells at cell 128
  is allocated. In \<^verbatim>\<open>mm_heap_dll.c\<close> the scan counts the two cells of \<^verbatim>\<open>base\<close>: after the
  same call it answers 4080, and the allocated block of 3 cells takes 48 bytes more of
  the 4096.
\<close>

theorem getfree_not_conserved:
  "kr2_mm_malloc kr2_s0 16 = Some (Inr (kr2_s1, 129)) \<and>
   kr2_mm_getfree kr2_s1 = Some 4096 \<and>
   mem_heapsize (k_arena kr2_s1) = 4096 \<and>
   \<not> k_isFree (k_mem kr2_s1 (kr2_mm_block 129)) \<and>
   k_size (k_mem kr2_s1 (kr2_mm_block 129)) = 2 \<and>
   dll_mm_malloc dll_s0 16 = Some (Inr (dll_s1, 258)) \<and>
   dll_mm_getfree dll_s1 = Some 4080 \<and>
   mem_heapsize (d_arena dll_s1) = 4096 \<and>
   d_size (d_mem dll_s1 (dll_mm_block 258)) = 3"
  using kr2_malloc_16 kr2_getfree_s1 dll_malloc_16 dll_getfree_s1
  by (simp add: kr2_s1_def dll_s1_def arena_defs kr2_mm_block_def dll_mm_block_def)

text \<open>
  C2 (every request, also of 0 bytes, gets a block with at least one payload cell beyond
  its header overhead, and \<^verbatim>\<open>mm_malloc(0)\<close> returns a handle that can be told apart and
  freed on its own). \<^verbatim>\<open>mm_heap_dll.c\<close> does not do this. In a fresh process \<^verbatim>\<open>mm_units(0)\<close>
  is 2, the size of the sentinel \<^verbatim>\<open>base\<close>, so the scan of \<^verbatim>\<open>mm_malloc(0)\<close> takes \<^verbatim>\<open>base\<close>
  itself as an exact fit and returns \<^verbatim>\<open>&base[1]\<close>. Afterwards \<^verbatim>\<open>base.ptr\<close> is \<^verbatim>\<open>NULL\<close> with
  \<^verbatim>\<open>freep\<close> still at \<^verbatim>\<open>base\<close>, so the next scan starts from the null pointer, and the arena
  is still empty, so \<^verbatim>\<open>mm_free\<close> of the handle fails its assertion. In \<^verbatim>\<open>mm_heap_kr2.c\<close>
  the block of \<^verbatim>\<open>mm_malloc(0)\<close> is one cell, its header and nothing more, but it is a
  block of the arena and \<^verbatim>\<open>mm_free\<close> takes it back.
\<close>

theorem malloc_0_sentinel:
  "dll_mm_init dll_s0 = dll_si \<and>
   dll_mm_units 0 = d_size (d_mem dll_si dll_base) \<and>
   dll_mm_malloc dll_s0 0 = Some (Inr (dll_s3, dll_mm_payload dll_base)) \<and>
   d_freep dll_s3 = dll_base \<and> d_ptr (d_mem dll_s3 dll_base) = NULL \<and>
   dll_mm_block (dll_mm_payload dll_base) = dll_base \<and>
   \<not> 2 < d_size (d_mem dll_s3 dll_base) \<and>
   mem_heapsize (d_arena dll_s3) = 0 \<and>
   dll_mm_free dll_s3 (dll_mm_payload dll_base) = Inl AssertFailed \<and>
   kr2_mm_malloc kr2_s0 0 = Some (Inr (kr2_s3, 130)) \<and>
   \<not> 1 < k_size (k_mem kr2_s3 (kr2_mm_block 130)) \<and>
   kr2_mm_free kr2_s3 130 = Some (Inr kr2_s5)"
proof -
  have p: "dll_mm_payload dll_base = 2" by (simp add: dll_mm_payload_def dll_base_def)
  have 1: "dll_mm_units 0 = d_size (d_mem dll_si dll_base)"
    by (simp add: dll_mm_units_0 dll_si_def dll_base_def)
  have 2: "d_freep dll_s3 = dll_base" "d_ptr (d_mem dll_s3 dll_base) = NULL"
    "\<not> 2 < d_size (d_mem dll_s3 dll_base)" "mem_heapsize (d_arena dll_s3) = 0"
    by (simp_all add: dll_s3_def dll_base_def arena_defs)
  have 3: "dll_mm_block 2 = dll_base" by (simp add: dll_mm_block_def dll_base_def)
  have 4: "\<not> 1 < k_size (k_mem kr2_s3 (kr2_mm_block 130))"
    by (simp add: kr2_s3_def kr2_mm_block_def)
  show ?thesis
    unfolding p
    by (intro conjI) (rule dll_init_s0 1 dll_malloc_0 2 3 dll_free_0 kr2_malloc_0 4 kr2_free_0)+
qed

text \<open>
  The sizes of the blocks of \<^verbatim>\<open>mm_malloc\<close>: a request of at least one byte (and at most
  \<open>2 ^ 64\<close> less the size of a header) is rounded up to at least one payload cell beyond
  the header overhead, a request of 0 bytes to the header overhead alone, and the block
  that \<^verbatim>\<open>mm_malloc\<close> returns has exactly that many cells.
\<close>

theorem malloc_block_units:
  "(0 < nbytes \<and> nbytes + kr2_sizeof_Header \<le> 2 ^ 64 \<longrightarrow> 1 < kr2_mm_units nbytes) \<and>
   (0 < nbytes \<and> nbytes + dll_sizeof_Header \<le> 2 ^ 64 \<longrightarrow> 2 < dll_mm_units nbytes) \<and>
   kr2_mm_units 0 = 1 \<and> dll_mm_units 0 = 2 \<and>
   (kr2_mm_malloc s nbytes = Some (Inr (s', ap)) \<and> ap \<noteq> NULL \<longrightarrow>
      k_size (k_mem s' (kr2_mm_block ap)) = kr2_mm_units nbytes) \<and>
   (dll_mm_malloc t nbytes = Some (Inr (t', aq)) \<and> aq \<noteq> NULL \<longrightarrow>
      d_size (d_mem t' (dll_mm_block aq)) = dll_mm_units nbytes)"
proof -
  have k: "kr2_mm_malloc s nbytes = Some (Inr (s', ap)) \<and> ap \<noteq> NULL \<longrightarrow>
      k_size (k_mem s' (kr2_mm_block ap)) = kr2_mm_units nbytes"
    using kr2_malloc_loop_size by (auto simp: kr2_mm_malloc_def Let_def)
  have d: "dll_mm_malloc t nbytes = Some (Inr (t', aq)) \<and> aq \<noteq> NULL \<longrightarrow>
      d_size (d_mem t' (dll_mm_block aq)) = dll_mm_units nbytes"
    using dll_malloc_loop_size by (auto simp: dll_mm_malloc_def Let_def)
  from k d kr2_mm_units_pos dll_mm_units_pos kr2_mm_units_0 dll_mm_units_0
  show ?thesis by blast
qed

theorem malloc_block_units_witness:
  "1 < kr2_mm_units 16 \<and> 2 < dll_mm_units 16 \<and>
   k_size (k_mem kr2_s1 (kr2_mm_block 129)) = kr2_mm_units 16 \<and>
   d_size (d_mem dll_s1 (dll_mm_block 258)) = dll_mm_units 16"
proof -
  have a: "(0::nat) < 16 \<and> 16 + kr2_sizeof_Header \<le> 2 ^ 64"
    by (simp add: kr2_sizeof_Header_def)
  have b: "(0::nat) < 16 \<and> 16 + dll_sizeof_Header \<le> 2 ^ 64"
    by (simp add: dll_sizeof_Header_def)
  have c: "(129::nat) \<noteq> NULL" "(258::nat) \<noteq> NULL" by simp_all
  from malloc_block_units [of 16 kr2_s0 kr2_s1 129 dll_s0 dll_s1 258]
    a b c kr2_malloc_16 dll_malloc_16
  show ?thesis by blast
qed

text \<open>
  C3, as stated (also for \<open>s = 0\<close>, \<^verbatim>\<open>mm_realloc(p, s)\<close> returns \<open>p\<close> and does nothing
  else), fails for \<open>s = 0\<close>: the code allocates a block of the least size, frees the old
  one and returns the new pointer, as the comment above \<^verbatim>\<open>mm_realloc\<close> says.
\<close>

theorem realloc_0_moves:
  "kr2_mm_malloc kr2_s0 16 = Some (Inr (kr2_s1, 129)) \<and>
   kr2_mm_realloc kr2_s1 129 0 = Some (Inr (kr2_s2, 128)) \<and>
   k_isFree (k_mem kr2_s2 (kr2_mm_block 129)) \<and>
   dll_mm_malloc dll_s0 16 = Some (Inr (dll_s1, 258)) \<and>
   dll_mm_realloc dll_s1 258 0 = Some (Inr (dll_s2, 256)) \<and>
   d_ptr (d_mem dll_s2 (dll_mm_block 258)) \<noteq> NULL"
  using kr2_malloc_16 kr2_realloc_0 dll_malloc_16 dll_realloc_0
  by (simp add: kr2_s2_def dll_s2_def kr2_mm_block_def dll_mm_block_def)

text \<open>
  C3, amended: for a pointer \<open>p\<close> that is not null and a size \<open>s\<close> of at least one byte
  and at most the payload of the block of \<open>p\<close> (its cells less the header overhead),
  \<^verbatim>\<open>mm_realloc(p, s)\<close> returns \<open>p\<close> and leaves the whole state as it was.
\<close>

theorem realloc_in_place:
  "(ap \<noteq> NULL \<and> 0 < newsize \<and>
    newsize \<le> (k_size (k_mem s (kr2_mm_block ap)) - 1) * kr2_sizeof_Header \<longrightarrow>
      kr2_mm_realloc s ap newsize = Some (Inr (s, ap))) \<and>
   (aq \<noteq> NULL \<and> 0 < newsize' \<and>
    newsize' \<le> (d_size (d_mem t (dll_mm_block aq)) - 2) * dll_sizeof_Header \<longrightarrow>
      dll_mm_realloc t aq newsize' = Some (Inr (t, aq)))"
  using kr2_mm_units_le [of newsize "k_size (k_mem s (kr2_mm_block ap))"]
    dll_mm_units_le [of newsize' "d_size (d_mem t (dll_mm_block aq))"]
  by (simp add: kr2_mm_realloc_def dll_mm_realloc_def Let_def)

theorem realloc_in_place_witness:
  "kr2_mm_realloc kr2_s1 129 16 = Some (Inr (kr2_s1, 129)) \<and>
   dll_mm_realloc dll_s1 258 16 = Some (Inr (dll_s1, 258))"
proof -
  have a: "(129::nat) \<noteq> NULL \<and> (0::nat) < 16 \<and>
      16 \<le> (k_size (k_mem kr2_s1 (kr2_mm_block 129)) - 1) * kr2_sizeof_Header"
    by (simp add: kr2_s1_def kr2_mm_block_def kr2_sizeof_Header_def)
  have b: "(258::nat) \<noteq> NULL \<and> (0::nat) < 16 \<and>
      16 \<le> (d_size (d_mem dll_s1 (dll_mm_block 258)) - 2) * dll_sizeof_Header"
    by (simp add: dll_s1_def dll_mm_block_def dll_sizeof_Header_def)
  from realloc_in_place [of 129 16 kr2_s1 258 16 dll_s1] a b show ?thesis by blast
qed

text \<open>
  C9: \<^verbatim>\<open>mm_free(NULL)\<close> returns at once, and the state (every header, the list, \<^verbatim>\<open>freep\<close>
  and the arena) is the one before the call.
\<close>

theorem free_null_noop:
  "kr2_mm_free s NULL = Some (Inr s) \<and> dll_mm_free t NULL = Inr t"
  by (simp add: kr2_mm_free_def dll_mm_free_def)

section \<open>Splitting and the scan of the list\<close>

lemma kr2_take_remainder:
  assumes "nunits < k_size (k_mem s p)"
  shows "k_size (k_mem (fst (kr2_take s prev_p p nunits)) p) = k_size (k_mem s p) - nunits"
    and "snd (kr2_take s prev_p p nunits) = kr2_mm_payload (p + (k_size (k_mem s p) - nunits))"
proof -
  define d where "d = k_size (k_mem s p) - nunits - 1"
  with assms have d: "k_size (k_mem s p) = nunits + Suc d" by simp
  show "k_size (k_mem (fst (kr2_take s prev_p p nunits)) p) = k_size (k_mem s p) - nunits"
    by (simp add: kr2_take_def connect_dlinkedlist_def Let_def d)
  show "snd (kr2_take s prev_p p nunits) = kr2_mm_payload (p + (k_size (k_mem s p) - nunits))"
    by (simp add: kr2_take_def connect_dlinkedlist_def Let_def d)
qed

lemma dll_take_remainder:
  assumes "nunits + 2 \<le> d_size (d_mem s p)"
  shows "d_size (d_mem (fst (dll_take s prevp p nunits)) p) = d_size (d_mem s p) - nunits"
    and "snd (dll_take s prevp p nunits) = dll_mm_payload (p + (d_size (d_mem s p) - nunits))"
proof -
  define d where "d = d_size (d_mem s p) - nunits - 2"
  with assms have d: "d_size (d_mem s p) = nunits + Suc (Suc d)" by simp
  show "d_size (d_mem (fst (dll_take s prevp p nunits)) p) = d_size (d_mem s p) - nunits"
    by (simp add: dll_take_def mm_tail_def Let_def d split: prod.splits)
  show "snd (dll_take s prevp p nunits) = dll_mm_payload (p + (d_size (d_mem s p) - nunits))"
    by (simp add: dll_take_def mm_tail_def Let_def d split: prod.splits)
qed

lemma size_t_small: "x < 2 ^ 64 \<Longrightarrow> size_t x = x"
  by (simp add: size_t_def)

lemma kr2_take_exact:
  "kr2_take s prev_p e (k_size (k_mem s e)) =
     (s\<lparr>k_mem := (k_mem s)(e := (k_mem s e)\<lparr>k_isFree := False\<rparr>), k_freep := prev_p\<rparr>,
      kr2_mm_payload e)"
  by (simp add: kr2_take_def)

text \<open>
  The split of \<^verbatim>\<open>mm_malloc\<close> in a well-formed state: the lower part stays the free block
  it was, with fewer cells, and the upper part is a new allocated block behind it.
\<close>

lemma kr2_take_split:
  assumes inv: "kr2_inv s (xs @ p # ys)" and fr: "k_isFree (k_mem s p)"
    and n: "0 < nunits" "nunits < k_size (k_mem s p)"
    and pp: "prev_p = k_prev (k_mem s p)"
  defines "r \<equiv> kr2_take s prev_p p nunits"
  defines "u \<equiv> p + (k_size (k_mem s p) - nunits)"
  shows "kr2_inv (fst r) (xs @ p # u # ys)"
    and "k_isFree (k_mem (fst r) p)"
    and "k_size (k_mem (fst r) p) = k_size (k_mem s p) - nunits"
    and "0 < k_size (k_mem s p) - nunits"
    and "k_prev (k_mem (fst r) p) = k_prev (k_mem s p)"
    and "k_next (k_mem (fst r) p) = u"
    and "snd r = kr2_mm_payload u"
    and "\<not> k_isFree (k_mem (fst r) u)"
    and "k_size (k_mem (fst r) u) = nunits"
    and "k_prev (k_mem (fst r) u) = p"
    and "k_next (k_mem (fst r) u) = k_next (k_mem s p)"
    and "k_freep (fst r) = prev_p"
proof -
  from inv have ring: "kr2_ring (k_mem s) (kr2_lo s) (xs @ p # ys) (kr2_top s)"
    by (simp add: kr2_inv_def)
  note f = kr2_ring_facts [OF ring]
  from n have le: "nunits \<le> k_size (k_mem s p)" and ne: "k_size (k_mem s p) \<noteq> nunits"
    by simp_all
  from kr2_take_inv(1) [OF inv fr n(1) le pp] ne
  show "kr2_inv (fst r) (xs @ p # u # ys)" by (simp add: r_def u_def)
  from n have i: "0 < k_size (k_mem s p) - nunits"
    "k_size (k_mem s p) - nunits < k_size (k_mem s p)" by simp_all
  have pm: "p \<in> set (xs @ p # ys)" by simp
  note it = kr2_ring_interior [OF ring pm i]
  have nx: "k_next (k_mem s p) = hd (ys @ [kr2_base])" by (rule kr2_ring_next [OF ring])
  have "hd (ys @ [kr2_base]) \<in> set (xs @ p # ys) \<or> hd (ys @ [kr2_base]) = kr2_base"
    by (cases ys) simp_all
  with it(1,2) have nx2: "k_next (k_mem s p) \<noteq> u" unfolding nx u_def by metis
  have nx1: "k_next (k_mem s p) \<noteq> p" using f(8,11) unfolding nx by (cases ys) auto
  note m = kr2_take_mem [OF n(2) nx1 nx2 [unfolded u_def], of prev_p, folded r_def u_def]
  from i(1) have pu: "u \<noteq> p" by (simp add: u_def)
  from fr show "k_isFree (k_mem (fst r) p)" by (simp add: m)
  show "k_size (k_mem (fst r) p) = k_size (k_mem s p) - nunits" by (simp add: m)
  from i(1) show "0 < k_size (k_mem s p) - nunits" .
  show "k_prev (k_mem (fst r) p) = k_prev (k_mem s p)" by (simp add: m)
  show "k_next (k_mem (fst r) p) = u" by (simp add: m)
  show "snd r = kr2_mm_payload u"
    unfolding r_def u_def by (rule kr2_take_remainder(2) [OF n(2)])
  from pu show "\<not> k_isFree (k_mem (fst r) u)" by (simp add: m)
  from pu show "k_size (k_mem (fst r) u) = nunits" by (simp add: m)
  from pu show "k_prev (k_mem (fst r) u) = p" by (simp add: m)
  from pu show "k_next (k_mem (fst r) u) = k_next (k_mem s p)" by (simp add: m)
  show "k_freep (fst r) = prev_p" by (simp add: r_def kr2_take_def Let_def)
qed

lemma dll_take_exact:
  shows "snd (dll_take t prevp e (d_size (d_mem t e))) = dll_mm_payload e"
    and "d_ptr (d_mem (fst (dll_take t prevp e (d_size (d_mem t e)))) e) = NULL"
    and "d_size (d_mem (fst (dll_take t prevp e (d_size (d_mem t e)))) e) = d_size (d_mem t e)"
    and "d_freep (fst (dll_take t prevp e (d_size (d_mem t e)))) = prevp"
  by (simp_all add: dll_take_def link_header_def mm_tail_def Let_def)

lemma dll_take_split:
  fixes prevp :: nat
  assumes n: "0 < munits" "munits + 2 \<le> d_size (d_mem t b)"
  defines "r \<equiv> dll_take t prevp b munits"
  defines "u \<equiv> b + (d_size (d_mem t b) - munits)"
  shows "d_size (d_mem (fst r) b) = d_size (d_mem t b) - munits"
    and "2 \<le> d_size (d_mem t b) - munits"
    and "d_ptr (d_mem (fst r) b) = d_ptr (d_mem t b)"
    and "d_size (d_mem (fst r) (u - 1)) = d_size (d_mem t b) - munits"
    and "d_ptr (d_mem (fst r) (u - 1)) = prevp"
    and "snd r = dll_mm_payload u"
    and "d_size (d_mem (fst r) u) = munits"
    and "d_ptr (d_mem (fst r) u) = NULL"
    and "d_ptr (d_mem (fst r) (u + munits - 1)) = NULL"
    and "d_freep (fst r) = prevp"
proof -
  define d where "d = d_size (d_mem t b) - munits - 2"
  define k where "k = munits - 1"
  from n have d: "d_size (d_mem t b) = Suc k + Suc (Suc d)" and k: "munits = Suc k"
    by (simp_all add: d_def k_def)
  show "d_size (d_mem (fst r) b) = d_size (d_mem t b) - munits"
    by (simp add: r_def dll_take_def mm_tail_def Let_def d k split: prod.splits)
  from n show "2 \<le> d_size (d_mem t b) - munits" by simp
  show "d_ptr (d_mem (fst r) b) = d_ptr (d_mem t b)"
    by (simp add: r_def dll_take_def mm_tail_def Let_def d k split: prod.splits)
  show "d_size (d_mem (fst r) (u - 1)) = d_size (d_mem t b) - munits"
    by (simp add: r_def u_def dll_take_def mm_tail_def Let_def d k split: prod.splits)
  show "d_ptr (d_mem (fst r) (u - 1)) = prevp"
    by (simp add: r_def u_def dll_take_def mm_tail_def Let_def d k split: prod.splits)
  show "snd r = dll_mm_payload u"
    by (simp add: r_def u_def dll_take_def mm_tail_def Let_def d k split: prod.splits)
  show "d_size (d_mem (fst r) u) = munits"
    by (simp add: r_def u_def dll_take_def mm_tail_def Let_def d k split: prod.splits)
  show "d_ptr (d_mem (fst r) u) = NULL"
    by (simp add: r_def u_def dll_take_def mm_tail_def Let_def d k split: prod.splits)
  show "d_ptr (d_mem (fst r) (u + munits - 1)) = NULL"
    by (simp add: r_def u_def dll_take_def mm_tail_def Let_def d k split: prod.splits)
  show "d_freep (fst r) = prevp"
    by (simp add: r_def dll_take_def Let_def split: prod.splits)
qed

text \<open>
  C5, as stated (a block is split only if the remainder has payload capacity), fails:
  \<^verbatim>\<open>mm_malloc(4032)\<close> in a fresh process splits the new block of the arena and leaves a
  free remainder of 1 cell in \<^verbatim>\<open>mm_heap_kr2.c\<close> and of 2 cells in \<^verbatim>\<open>mm_heap_dll.c\<close>: a
  header, or a header and a tail, with no payload.
\<close>

theorem split_remainder_no_payload:
  "kr2_mm_malloc kr2_s0 4032 = Some (Inr (kr2_s4, 4)) \<and>
   k_isFree (k_mem kr2_s4 2) \<and> k_size (k_mem kr2_s4 2) = 1 \<and>
   dll_mm_malloc dll_s0 4032 = Some (Inr (dll_s4, 7)) \<and>
   d_ptr (d_mem dll_s4 4) \<noteq> NULL \<and> d_size (d_mem dll_s4 4) = 2"
  using kr2_malloc_4032 dll_malloc_4032
  by (simp add: kr2_s4_def dll_s4_def)

text \<open>
  C5, amended. The scan of \<^verbatim>\<open>mm_malloc\<close> hands out the block it looks at under one test
  and no other, and a block that fails the test is never handed out: the scan goes on to
  the next block, or, when the block is the one at \<^verbatim>\<open>freep\<close>, to \<^verbatim>\<open>morecore\<close>.

  In \<^verbatim>\<open>mm_heap_kr2.c\<close> the test is that the block \<open>p\<close> is free and has at least the cells
  asked for. A block of exactly that size is marked allocated and returned whole. A
  larger block is always split, there is no threshold: the lower part stays the free
  block it was, with its link to the block before it, and has the cells left over, at
  least one; the upper part becomes an allocated block of the cells asked for, linked
  behind it; and the list of a well-formed state is well-formed again, with the new block
  behind \<open>p\<close>.

  In \<^verbatim>\<open>mm_heap_dll.c\<close> the test is that the block \<open>b\<close> has exactly the cells asked for or at
  least two more. A block of exactly that size is returned whole, its pointer set to
  \<^verbatim>\<open>NULL\<close>. In a split the lower part keeps its header and its link to the next free
  block, it has the cells left over, at least two, and its new tail, the cell before the
  upper part, carries this size and points to the block before it on the list; the upper
  part has the cells asked for and the pointers of its header and of its tail are \<^verbatim>\<open>NULL\<close>.
\<close>

theorem malloc_acceptance:
  "(nunits \<le> k_size (k_mem s p) \<and> k_isFree (k_mem s p) \<longrightarrow>
      kr2_malloc_loop s prev_p p nunits = Some (Inr (kr2_take s prev_p p nunits))) \<and>
   kr2_take s prev_p e (k_size (k_mem s e)) =
      (s\<lparr>k_mem := (k_mem s)(e := (k_mem s e)\<lparr>k_isFree := False\<rparr>), k_freep := prev_p\<rparr>,
       kr2_mm_payload e) \<and>
   (kr2_inv s (xs @ p # ys) \<and> k_isFree (k_mem s p) \<and> 0 < nunits \<and>
    nunits < k_size (k_mem s p) \<and> prev_p = k_prev (k_mem s p) \<longrightarrow>
      kr2_inv (fst (kr2_take s prev_p p nunits))
        (xs @ p # (p + (k_size (k_mem s p) - nunits)) # ys) \<and>
      k_isFree (k_mem (fst (kr2_take s prev_p p nunits)) p) \<and>
      k_size (k_mem (fst (kr2_take s prev_p p nunits)) p) = k_size (k_mem s p) - nunits \<and>
      0 < k_size (k_mem s p) - nunits \<and>
      k_prev (k_mem (fst (kr2_take s prev_p p nunits)) p) = k_prev (k_mem s p) \<and>
      k_next (k_mem (fst (kr2_take s prev_p p nunits)) p) =
        p + (k_size (k_mem s p) - nunits) \<and>
      snd (kr2_take s prev_p p nunits) =
        kr2_mm_payload (p + (k_size (k_mem s p) - nunits)) \<and>
      \<not> k_isFree (k_mem (fst (kr2_take s prev_p p nunits))
           (p + (k_size (k_mem s p) - nunits))) \<and>
      k_size (k_mem (fst (kr2_take s prev_p p nunits))
           (p + (k_size (k_mem s p) - nunits))) = nunits \<and>
      k_freep (fst (kr2_take s prev_p p nunits)) = prev_p) \<and>
   (\<not> (nunits \<le> k_size (k_mem s r) \<and> k_isFree (k_mem s r)) \<and> r \<noteq> k_freep s \<longrightarrow>
      kr2_malloc_loop s prev_p r nunits = kr2_malloc_loop s r (k_next (k_mem s r)) nunits) \<and>
   (\<not> (nunits \<le> k_size (k_mem s (k_freep s)) \<and> k_isFree (k_mem s (k_freep s))) \<longrightarrow>
      kr2_malloc_loop s prev_p (k_freep s) nunits =
        (case kr2_morecore s nunits of
           None \<Rightarrow> None
         | Some (Inl f) \<Rightarrow> Some (Inl f)
         | Some (Inr (s', q)) \<Rightarrow>
             if q = NULL then Some (Inr (s'\<lparr>k_errno := ENOMEM\<rparr>, NULL))
             else kr2_malloc_loop s' q (k_next (k_mem s' q)) nunits)) \<and>
   (munits + 2 < 2 ^ 64 \<and>
    (d_size (d_mem t b) = munits \<or> munits + 2 \<le> d_size (d_mem t b)) \<longrightarrow>
      dll_malloc_loop t prevp b munits = Some (Inr (dll_take t prevp b munits))) \<and>
   snd (dll_take t prevp e' (d_size (d_mem t e'))) = dll_mm_payload e' \<and>
   d_ptr (d_mem (fst (dll_take t prevp e' (d_size (d_mem t e')))) e') = NULL \<and>
   d_size (d_mem (fst (dll_take t prevp e' (d_size (d_mem t e')))) e') = d_size (d_mem t e') \<and>
   d_freep (fst (dll_take t prevp e' (d_size (d_mem t e')))) = prevp \<and>
   (0 < munits \<and> munits + 2 \<le> d_size (d_mem t b) \<longrightarrow>
      d_size (d_mem (fst (dll_take t prevp b munits)) b) = d_size (d_mem t b) - munits \<and>
      2 \<le> d_size (d_mem t b) - munits \<and>
      d_ptr (d_mem (fst (dll_take t prevp b munits)) b) = d_ptr (d_mem t b) \<and>
      d_size (d_mem (fst (dll_take t prevp b munits))
         (b + (d_size (d_mem t b) - munits) - 1)) = d_size (d_mem t b) - munits \<and>
      d_ptr (d_mem (fst (dll_take t prevp b munits))
         (b + (d_size (d_mem t b) - munits) - 1)) = prevp \<and>
      snd (dll_take t prevp b munits) =
         dll_mm_payload (b + (d_size (d_mem t b) - munits)) \<and>
      d_size (d_mem (fst (dll_take t prevp b munits))
         (b + (d_size (d_mem t b) - munits))) = munits \<and>
      d_ptr (d_mem (fst (dll_take t prevp b munits))
         (b + (d_size (d_mem t b) - munits))) = NULL \<and>
      d_ptr (d_mem (fst (dll_take t prevp b munits))
         (b + (d_size (d_mem t b) - munits) + munits - 1)) = NULL \<and>
      d_freep (fst (dll_take t prevp b munits)) = prevp) \<and>
   (munits' + 2 < 2 ^ 64 \<and>
    \<not> (d_size (d_mem t c) = munits' \<or> munits' + 2 \<le> d_size (d_mem t c)) \<and>
    c \<noteq> d_freep t \<longrightarrow>
      dll_malloc_loop t prevp c munits' = dll_malloc_loop t c (d_ptr (d_mem t c)) munits') \<and>
   (munits' + 2 < 2 ^ 64 \<and>
    \<not> (d_size (d_mem t (d_freep t)) = munits' \<or>
       munits' + 2 \<le> d_size (d_mem t (d_freep t))) \<longrightarrow>
      dll_malloc_loop t prevp (d_freep t) munits' =
        (case dll_morecore t munits' of
           Inl f \<Rightarrow> Some (Inl f)
         | Inr (t', q) \<Rightarrow>
             if q = NULL then Some (Inr (t'\<lparr>d_errno := ENOMEM\<rparr>, NULL))
             else dll_malloc_loop t' q (d_ptr (d_mem t' q)) munits'))"
proof -
  have k1: "nunits \<le> k_size (k_mem s p) \<and> k_isFree (k_mem s p) \<longrightarrow>
      kr2_malloc_loop s prev_p p nunits = Some (Inr (kr2_take s prev_p p nunits))"
    by (subst kr2_malloc_loop.simps) simp
  have k3: "kr2_inv s (xs @ p # ys) \<and> k_isFree (k_mem s p) \<and> 0 < nunits \<and>
    nunits < k_size (k_mem s p) \<and> prev_p = k_prev (k_mem s p) \<longrightarrow>
      kr2_inv (fst (kr2_take s prev_p p nunits))
        (xs @ p # (p + (k_size (k_mem s p) - nunits)) # ys) \<and>
      k_isFree (k_mem (fst (kr2_take s prev_p p nunits)) p) \<and>
      k_size (k_mem (fst (kr2_take s prev_p p nunits)) p) = k_size (k_mem s p) - nunits \<and>
      0 < k_size (k_mem s p) - nunits \<and>
      k_prev (k_mem (fst (kr2_take s prev_p p nunits)) p) = k_prev (k_mem s p) \<and>
      k_next (k_mem (fst (kr2_take s prev_p p nunits)) p) =
        p + (k_size (k_mem s p) - nunits) \<and>
      snd (kr2_take s prev_p p nunits) =
        kr2_mm_payload (p + (k_size (k_mem s p) - nunits)) \<and>
      \<not> k_isFree (k_mem (fst (kr2_take s prev_p p nunits))
           (p + (k_size (k_mem s p) - nunits))) \<and>
      k_size (k_mem (fst (kr2_take s prev_p p nunits))
           (p + (k_size (k_mem s p) - nunits))) = nunits \<and>
      k_freep (fst (kr2_take s prev_p p nunits)) = prev_p"
  proof (intro impI, elim conjE)
    assume a: "kr2_inv s (xs @ p # ys)" "k_isFree (k_mem s p)" "0 < nunits"
      "nunits < k_size (k_mem s p)" "prev_p = k_prev (k_mem s p)"
    note sp = kr2_take_split [OF a]
    show "kr2_inv (fst (kr2_take s prev_p p nunits))
        (xs @ p # (p + (k_size (k_mem s p) - nunits)) # ys) \<and>
      k_isFree (k_mem (fst (kr2_take s prev_p p nunits)) p) \<and>
      k_size (k_mem (fst (kr2_take s prev_p p nunits)) p) = k_size (k_mem s p) - nunits \<and>
      0 < k_size (k_mem s p) - nunits \<and>
      k_prev (k_mem (fst (kr2_take s prev_p p nunits)) p) = k_prev (k_mem s p) \<and>
      k_next (k_mem (fst (kr2_take s prev_p p nunits)) p) =
        p + (k_size (k_mem s p) - nunits) \<and>
      snd (kr2_take s prev_p p nunits) =
        kr2_mm_payload (p + (k_size (k_mem s p) - nunits)) \<and>
      \<not> k_isFree (k_mem (fst (kr2_take s prev_p p nunits))
           (p + (k_size (k_mem s p) - nunits))) \<and>
      k_size (k_mem (fst (kr2_take s prev_p p nunits))
           (p + (k_size (k_mem s p) - nunits))) = nunits \<and>
      k_freep (fst (kr2_take s prev_p p nunits)) = prev_p"
      by (intro conjI) (rule sp(1) sp(2) sp(3) sp(4) sp(5) sp(6) sp(7) sp(8) sp(9) sp(12))+
  qed
  have k4: "\<not> (nunits \<le> k_size (k_mem s r) \<and> k_isFree (k_mem s r)) \<and> r \<noteq> k_freep s \<longrightarrow>
      kr2_malloc_loop s prev_p r nunits = kr2_malloc_loop s r (k_next (k_mem s r)) nunits"
    by (subst kr2_malloc_loop.simps) auto
  have k5: "\<not> (nunits \<le> k_size (k_mem s (k_freep s)) \<and> k_isFree (k_mem s (k_freep s))) \<longrightarrow>
      kr2_malloc_loop s prev_p (k_freep s) nunits =
        (case kr2_morecore s nunits of
           None \<Rightarrow> None
         | Some (Inl f) \<Rightarrow> Some (Inl f)
         | Some (Inr (s', q)) \<Rightarrow>
             if q = NULL then Some (Inr (s'\<lparr>k_errno := ENOMEM\<rparr>, NULL))
             else kr2_malloc_loop s' q (k_next (k_mem s' q)) nunits)"
    by (subst kr2_malloc_loop.simps) auto
  have d1: "munits + 2 < 2 ^ 64 \<and>
    (d_size (d_mem t b) = munits \<or> munits + 2 \<le> d_size (d_mem t b)) \<longrightarrow>
      dll_malloc_loop t prevp b munits = Some (Inr (dll_take t prevp b munits))"
    by (subst dll_malloc_loop.simps) (auto simp: size_t_small)
  have d3: "0 < munits \<and> munits + 2 \<le> d_size (d_mem t b) \<longrightarrow>
      d_size (d_mem (fst (dll_take t prevp b munits)) b) = d_size (d_mem t b) - munits \<and>
      2 \<le> d_size (d_mem t b) - munits \<and>
      d_ptr (d_mem (fst (dll_take t prevp b munits)) b) = d_ptr (d_mem t b) \<and>
      d_size (d_mem (fst (dll_take t prevp b munits))
         (b + (d_size (d_mem t b) - munits) - 1)) = d_size (d_mem t b) - munits \<and>
      d_ptr (d_mem (fst (dll_take t prevp b munits))
         (b + (d_size (d_mem t b) - munits) - 1)) = prevp \<and>
      snd (dll_take t prevp b munits) =
         dll_mm_payload (b + (d_size (d_mem t b) - munits)) \<and>
      d_size (d_mem (fst (dll_take t prevp b munits))
         (b + (d_size (d_mem t b) - munits))) = munits \<and>
      d_ptr (d_mem (fst (dll_take t prevp b munits))
         (b + (d_size (d_mem t b) - munits))) = NULL \<and>
      d_ptr (d_mem (fst (dll_take t prevp b munits))
         (b + (d_size (d_mem t b) - munits) + munits - 1)) = NULL \<and>
      d_freep (fst (dll_take t prevp b munits)) = prevp"
  proof (intro impI, elim conjE)
    assume a: "0 < munits" "munits + 2 \<le> d_size (d_mem t b)"
    note sp = dll_take_split [OF a]
    show "d_size (d_mem (fst (dll_take t prevp b munits)) b) = d_size (d_mem t b) - munits \<and>
      2 \<le> d_size (d_mem t b) - munits \<and>
      d_ptr (d_mem (fst (dll_take t prevp b munits)) b) = d_ptr (d_mem t b) \<and>
      d_size (d_mem (fst (dll_take t prevp b munits))
         (b + (d_size (d_mem t b) - munits) - 1)) = d_size (d_mem t b) - munits \<and>
      d_ptr (d_mem (fst (dll_take t prevp b munits))
         (b + (d_size (d_mem t b) - munits) - 1)) = prevp \<and>
      snd (dll_take t prevp b munits) =
         dll_mm_payload (b + (d_size (d_mem t b) - munits)) \<and>
      d_size (d_mem (fst (dll_take t prevp b munits))
         (b + (d_size (d_mem t b) - munits))) = munits \<and>
      d_ptr (d_mem (fst (dll_take t prevp b munits))
         (b + (d_size (d_mem t b) - munits))) = NULL \<and>
      d_ptr (d_mem (fst (dll_take t prevp b munits))
         (b + (d_size (d_mem t b) - munits) + munits - 1)) = NULL \<and>
      d_freep (fst (dll_take t prevp b munits)) = prevp"
      by (intro conjI) (rule sp)+
  qed
  have d4: "munits' + 2 < 2 ^ 64 \<and>
    \<not> (d_size (d_mem t c) = munits' \<or> munits' + 2 \<le> d_size (d_mem t c)) \<and>
    c \<noteq> d_freep t \<longrightarrow>
      dll_malloc_loop t prevp c munits' = dll_malloc_loop t c (d_ptr (d_mem t c)) munits'"
    by (subst dll_malloc_loop.simps) (auto simp: size_t_small)
  have d5: "munits' + 2 < 2 ^ 64 \<and>
    \<not> (d_size (d_mem t (d_freep t)) = munits' \<or>
       munits' + 2 \<le> d_size (d_mem t (d_freep t))) \<longrightarrow>
      dll_malloc_loop t prevp (d_freep t) munits' =
        (case dll_morecore t munits' of
           Inl f \<Rightarrow> Some (Inl f)
         | Inr (t', q) \<Rightarrow>
             if q = NULL then Some (Inr (t'\<lparr>d_errno := ENOMEM\<rparr>, NULL))
             else dll_malloc_loop t' q (d_ptr (d_mem t' q)) munits')"
    by (subst dll_malloc_loop.simps) (auto simp: size_t_small)
  show ?thesis
    by (intro conjI) (rule k1 kr2_take_exact k3 k4 k5 d1 dll_take_exact d3 d4 d5)+
qed


theorem malloc_acceptance_witness:
  "kr2_malloc_loop kr2_s1 1 2 2 = Some (Inr (kr2_take kr2_s1 1 2 2)) \<and>
   kr2_inv (fst (kr2_take kr2_s1 1 2 2)) [2, 126, 128] \<and>
   k_isFree (k_mem (fst (kr2_take kr2_s1 1 2 2)) 2) \<and>
   k_size (k_mem (fst (kr2_take kr2_s1 1 2 2)) 2) = 124 \<and>
   k_next (k_mem (fst (kr2_take kr2_s1 1 2 2)) 2) = 126 \<and>
   snd (kr2_take kr2_s1 1 2 2) = kr2_mm_payload 126 \<and>
   \<not> k_isFree (k_mem (fst (kr2_take kr2_s1 1 2 2)) 126) \<and>
   k_size (k_mem (fst (kr2_take kr2_s1 1 2 2)) 126) = 2 \<and>
   kr2_malloc_loop kr2_s1 1 128 2 = kr2_malloc_loop kr2_s1 128 1 2 \<and>
   kr2_malloc_loop kr2_s1 128 1 2 =
     (case kr2_morecore kr2_s1 2 of
        None \<Rightarrow> None
      | Some (Inl f) \<Rightarrow> Some (Inl f)
      | Some (Inr (s', q)) \<Rightarrow>
          if q = NULL then Some (Inr (s'\<lparr>k_errno := ENOMEM\<rparr>, NULL))
          else kr2_malloc_loop s' q (k_next (k_mem s' q)) 2) \<and>
   dll_malloc_loop dll_s1 1 4 3 = Some (Inr (dll_take dll_s1 1 4 3)) \<and>
   d_size (d_mem (fst (dll_take dll_s1 1 4 3)) 4) = 250 \<and>
   d_ptr (d_mem (fst (dll_take dll_s1 1 4 3)) 4) = 1 \<and>
   d_ptr (d_mem (fst (dll_take dll_s1 1 4 3)) 253) = 1 \<and>
   snd (dll_take dll_s1 1 4 3) = dll_mm_payload 254 \<and>
   d_size (d_mem (fst (dll_take dll_s1 1 4 3)) 254) = 3 \<and>
   d_ptr (d_mem (fst (dll_take dll_s1 1 4 3)) 254) = NULL \<and>
   d_ptr (d_mem (fst (dll_take dll_s1 1 4 3)) 256) = NULL \<and>
   dll_malloc_loop dll_s1 1 4 252 = dll_malloc_loop dll_s1 4 1 252 \<and>
   dll_malloc_loop dll_s1 4 1 252 =
     (case dll_morecore dll_s1 252 of
        Inl f \<Rightarrow> Some (Inl f)
      | Inr (t', q) \<Rightarrow>
          if q = NULL then Some (Inr (t'\<lparr>d_errno := ENOMEM\<rparr>, NULL))
          else dll_malloc_loop t' q (d_ptr (d_mem t' q)) 252)"
proof -
  have ks: "k_size (k_mem kr2_s1 2) = 126" "k_prev (k_mem kr2_s1 2) = 1"
    "k_next (k_mem kr2_s1 128) = 1" "k_freep kr2_s1 = 1"
    by (simp_all add: kr2_s1_def)
  have ds: "d_size (d_mem dll_s1 4) = 253" "d_ptr (d_mem dll_s1 4) = 1" "d_freep dll_s1 = 1"
    by (simp_all add: dll_s1_def)
  have inv: "kr2_inv kr2_s1 ([] @ 2 # [128])"
    by (simp add: kr2_inv_def arena_ok_def kr2_ring_def kr2_lo_def kr2_top_def kr2_s1_def
        arena1_def kr2_base_def kr2_sizeof_Header_def)
  have a1: "(2::nat) \<le> k_size (k_mem kr2_s1 2) \<and> k_isFree (k_mem kr2_s1 2)"
    by (simp add: kr2_s1_def)
  have a3: "kr2_inv kr2_s1 ([] @ 2 # [128]) \<and> k_isFree (k_mem kr2_s1 2) \<and> (0::nat) < 2 \<and>
      2 < k_size (k_mem kr2_s1 2) \<and> 1 = k_prev (k_mem kr2_s1 2)"
    using inv by (simp add: kr2_s1_def)
  have a4: "\<not> ((2::nat) \<le> k_size (k_mem kr2_s1 128) \<and> k_isFree (k_mem kr2_s1 128)) \<and>
      128 \<noteq> k_freep kr2_s1"
    by (simp add: kr2_s1_def)
  have a5: "\<not> ((2::nat) \<le> k_size (k_mem kr2_s1 (k_freep kr2_s1)) \<and>
      k_isFree (k_mem kr2_s1 (k_freep kr2_s1)))"
    by (simp add: kr2_s1_def)
  have b1: "(3::nat) + 2 < 2 ^ 64 \<and>
      (d_size (d_mem dll_s1 4) = 3 \<or> 3 + 2 \<le> d_size (d_mem dll_s1 4))"
    by (simp add: dll_s1_def)
  have b3: "(0::nat) < 3 \<and> 3 + 2 \<le> d_size (d_mem dll_s1 4)"
    by (simp add: dll_s1_def)
  have b4: "(252::nat) + 2 < 2 ^ 64 \<and>
      \<not> (d_size (d_mem dll_s1 4) = 252 \<or> 252 + 2 \<le> d_size (d_mem dll_s1 4)) \<and>
      4 \<noteq> d_freep dll_s1"
    by (simp add: dll_s1_def)
  have b5: "(252::nat) + 2 < 2 ^ 64 \<and>
      \<not> (d_size (d_mem dll_s1 (d_freep dll_s1)) = 252 \<or>
         252 + 2 \<le> d_size (d_mem dll_s1 (d_freep dll_s1)))"
    by (simp add: dll_s1_def)
  note m = malloc_acceptance [where nunits = 2 and s = kr2_s1 and p = 2 and prev_p = 1
      and xs = "[]" and ys = "[128]" and r = 128 and munits = 3 and t = dll_s1 and b = 4
      and prevp = 1 and munits' = 252 and c = 4]
  note m5 = malloc_acceptance [where nunits = 2 and s = kr2_s1 and prev_p = 128]
  note m13 = malloc_acceptance [where munits' = 252 and t = dll_s1 and prevp = 4]
  note m_1 = m [THEN conjunct1]
  note m_3 = m [THEN conjunct2, THEN conjunct2, THEN conjunct1]
  note m_4 = m [THEN conjunct2, THEN conjunct2, THEN conjunct2, THEN conjunct1]
  note t5 = m [THEN conjunct2, THEN conjunct2, THEN conjunct2, THEN conjunct2, THEN conjunct2]
  note m_6 = t5 [THEN conjunct1]
  note t10 = t5 [THEN conjunct2, THEN conjunct2, THEN conjunct2, THEN conjunct2, THEN conjunct2]
  note m_11 = t10 [THEN conjunct1]
  note m_12 = t10 [THEN conjunct2, THEN conjunct1]
  note m5_5 = m5 [THEN conjunct2, THEN conjunct2, THEN conjunct2, THEN conjunct2, THEN conjunct1]
  note m13_13 = m13 [THEN conjunct2, THEN conjunct2, THEN conjunct2, THEN conjunct2,
      THEN conjunct2, THEN conjunct2, THEN conjunct2, THEN conjunct2, THEN conjunct2,
      THEN conjunct2, THEN conjunct2, THEN conjunct2]
  have w1: "kr2_malloc_loop kr2_s1 1 2 2 = Some (Inr (kr2_take kr2_s1 1 2 2))"
    by (rule m_1 [THEN mp, OF a1])
  have w3: "kr2_inv (fst (kr2_take kr2_s1 1 2 2)) [2, 126, 128] \<and>
      k_isFree (k_mem (fst (kr2_take kr2_s1 1 2 2)) 2) \<and>
      k_size (k_mem (fst (kr2_take kr2_s1 1 2 2)) 2) = 124 \<and>
      k_next (k_mem (fst (kr2_take kr2_s1 1 2 2)) 2) = 126 \<and>
      snd (kr2_take kr2_s1 1 2 2) = kr2_mm_payload 126 \<and>
      \<not> k_isFree (k_mem (fst (kr2_take kr2_s1 1 2 2)) 126) \<and>
      k_size (k_mem (fst (kr2_take kr2_s1 1 2 2)) 126) = 2"
    using m_3 [THEN mp, OF a3] by (simp add: ks)
  have w4: "kr2_malloc_loop kr2_s1 1 128 2 = kr2_malloc_loop kr2_s1 128 1 2"
    using m_4 [THEN mp, OF a4] by (simp only: ks)
  have w5: "kr2_malloc_loop kr2_s1 128 1 2 =
     (case kr2_morecore kr2_s1 2 of
        None \<Rightarrow> None
      | Some (Inl f) \<Rightarrow> Some (Inl f)
      | Some (Inr (s', q)) \<Rightarrow>
          if q = NULL then Some (Inr (s'\<lparr>k_errno := ENOMEM\<rparr>, NULL))
          else kr2_malloc_loop s' q (k_next (k_mem s' q)) 2)"
    using m5_5 [THEN mp, OF a5] by (simp only: ks)
  have w6: "dll_malloc_loop dll_s1 1 4 3 = Some (Inr (dll_take dll_s1 1 4 3))"
    by (rule m_6 [THEN mp, OF b1])
  have w11: "d_size (d_mem (fst (dll_take dll_s1 1 4 3)) 4) = 250 \<and>
      d_ptr (d_mem (fst (dll_take dll_s1 1 4 3)) 4) = 1 \<and>
      d_ptr (d_mem (fst (dll_take dll_s1 1 4 3)) 253) = 1 \<and>
      snd (dll_take dll_s1 1 4 3) = dll_mm_payload 254 \<and>
      d_size (d_mem (fst (dll_take dll_s1 1 4 3)) 254) = 3 \<and>
      d_ptr (d_mem (fst (dll_take dll_s1 1 4 3)) 254) = NULL \<and>
      d_ptr (d_mem (fst (dll_take dll_s1 1 4 3)) 256) = NULL"
    using m_11 [THEN mp, OF b3] by (simp add: ds)
  have w12: "dll_malloc_loop dll_s1 1 4 252 = dll_malloc_loop dll_s1 4 1 252"
    using m_12 [THEN mp, OF b4] by (simp only: ds)
  have w13: "dll_malloc_loop dll_s1 4 1 252 =
     (case dll_morecore dll_s1 252 of
        Inl f \<Rightarrow> Some (Inl f)
      | Inr (t', q) \<Rightarrow>
          if q = NULL then Some (Inr (t'\<lparr>d_errno := ENOMEM\<rparr>, NULL))
          else dll_malloc_loop t' q (d_ptr (d_mem t' q)) 252)"
    using m13_13 [THEN mp, OF b5] by (simp only: ds)
  from w1 w3 w4 w5 w6 w11 w12 w13 show ?thesis by simp
qed

text \<open>
  C7: when \<^verbatim>\<open>freep\<close> is set, the scan comes back to \<^verbatim>\<open>freep\<close> after \<open>k + 1\<close> steps, none
  of the blocks on the way is accepted for the request, and the arena cannot grow by
  what \<^verbatim>\<open>morecore\<close> asks for, then \<^verbatim>\<open>mm_malloc\<close> returns \<^verbatim>\<open>NULL\<close>, \<^verbatim>\<open>errno\<close> is
  \<^verbatim>\<open>ENOMEM\<close>, and nothing else of the state has changed.
\<close>

theorem malloc_out_of_memory:
  "(k_freep s \<noteq> NULL \<and> kr2_walk s (Suc k) = k_freep s \<and>
    (\<forall>i\<le>k. \<not> (kr2_mm_units nbytes \<le> k_size (k_mem s (kr2_walk s (Suc i))) \<and>
               k_isFree (k_mem s (kr2_walk s (Suc i))))) \<and>
    mem_max (k_arena s) <
      mem_brk (k_arena s) +
      kr2_mm_bytes (max (kr2_mm_units nbytes) (mem_pagesize (k_arena s) div kr2_sizeof_Header))
    \<longrightarrow> kr2_mm_malloc s nbytes = Some (Inr (s\<lparr>k_errno := ENOMEM\<rparr>, NULL))) \<and>
   (d_freep t \<noteq> NULL \<and> dll_walk t (Suc k') = d_freep t \<and>
    (\<forall>i\<le>k'. \<not> (d_size (d_mem t (dll_walk t (Suc i))) = dll_mm_units nbytes' \<or>
               size_t (dll_mm_units nbytes' + 2) \<le> d_size (d_mem t (dll_walk t (Suc i))))) \<and>
    mem_max (d_arena t) <
      mem_brk (d_arena t) +
      dll_mm_bytes (max (dll_mm_units nbytes') (mem_pagesize (d_arena t) div dll_sizeof_Header))
    \<longrightarrow> dll_mm_malloc t nbytes' = Some (Inr (t\<lparr>d_errno := ENOMEM\<rparr>, NULL)))"
proof (intro conjI impI)
  assume h: "k_freep s \<noteq> NULL \<and> kr2_walk s (Suc k) = k_freep s \<and>
    (\<forall>i\<le>k. \<not> (kr2_mm_units nbytes \<le> k_size (k_mem s (kr2_walk s (Suc i))) \<and>
               k_isFree (k_mem s (kr2_walk s (Suc i))))) \<and>
    mem_max (k_arena s) <
      mem_brk (k_arena s) +
      kr2_mm_bytes (max (kr2_mm_units nbytes) (mem_pagesize (k_arena s) div kr2_sizeof_Header))"
  then have "kr2_malloc_loop s (((\<lambda>p. k_next (k_mem s p)) ^^ 0) (k_freep s))
           (((\<lambda>p. k_next (k_mem s p)) ^^ Suc 0) (k_freep s)) (kr2_mm_units nbytes) =
         Some (Inr (s\<lparr>k_errno := ENOMEM\<rparr>, NULL))"
    by (intro kr2_scan_fails [where s = s and k = k]) (simp_all add: kr2_walk_def)
  with h show "kr2_mm_malloc s nbytes = Some (Inr (s\<lparr>k_errno := ENOMEM\<rparr>, NULL))"
    by (simp add: kr2_mm_malloc_def)
next
  assume h: "d_freep t \<noteq> NULL \<and> dll_walk t (Suc k') = d_freep t \<and>
    (\<forall>i\<le>k'. \<not> (d_size (d_mem t (dll_walk t (Suc i))) = dll_mm_units nbytes' \<or>
               size_t (dll_mm_units nbytes' + 2) \<le> d_size (d_mem t (dll_walk t (Suc i))))) \<and>
    mem_max (d_arena t) <
      mem_brk (d_arena t) +
      dll_mm_bytes (max (dll_mm_units nbytes') (mem_pagesize (d_arena t) div dll_sizeof_Header))"
  then have "dll_malloc_loop t (((\<lambda>p. d_ptr (d_mem t p)) ^^ 0) (d_freep t))
           (((\<lambda>p. d_ptr (d_mem t p)) ^^ Suc 0) (d_freep t)) (dll_mm_units nbytes') =
         Some (Inr (t\<lparr>d_errno := ENOMEM\<rparr>, NULL))"
    by (intro dll_scan_fails [where s = t and k = k']) (simp_all add: dll_walk_def)
  with h show "dll_mm_malloc t nbytes' = Some (Inr (t\<lparr>d_errno := ENOMEM\<rparr>, NULL))"
    by (simp add: dll_mm_malloc_def)
qed

theorem malloc_out_of_memory_witness:
  "kr2_mm_malloc kr2_s1 8000 = Some (Inr (kr2_s1\<lparr>k_errno := ENOMEM\<rparr>, NULL)) \<and>
   dll_mm_malloc dll_s1 8000 = Some (Inr (dll_s1\<lparr>d_errno := ENOMEM\<rparr>, NULL))"
proof -
  have u: "kr2_mm_units 8000 = 251" "dll_mm_units 8000 = 502"
    by (simp_all add: kr2_mm_units_def dll_mm_units_def size_t_def
        kr2_sizeof_Header_def dll_sizeof_Header_def)
  have kw: "kr2_walk kr2_s1 (Suc 0) = 2" "kr2_walk kr2_s1 (Suc (Suc 0)) = 128"
    "kr2_walk kr2_s1 (Suc (Suc (Suc 0))) = 1"
    by (simp_all add: kr2_walk_def kr2_s1_def)
  have dw: "dll_walk dll_s1 (Suc 0) = 4" "dll_walk dll_s1 (Suc (Suc 0)) = 1"
    by (simp_all add: dll_walk_def dll_s1_def)
  have ka: "\<forall>i\<le>Suc (Suc 0).
      \<not> (kr2_mm_units 8000 \<le> k_size (k_mem kr2_s1 (kr2_walk kr2_s1 (Suc i))) \<and>
         k_isFree (k_mem kr2_s1 (kr2_walk kr2_s1 (Suc i))))"
  proof (intro allI impI)
    fix i :: nat
    assume "i \<le> Suc (Suc 0)"
    then consider "i = 0" | "i = Suc 0" | "i = Suc (Suc 0)" by arith
    then show "\<not> (kr2_mm_units 8000 \<le> k_size (k_mem kr2_s1 (kr2_walk kr2_s1 (Suc i))) \<and>
         k_isFree (k_mem kr2_s1 (kr2_walk kr2_s1 (Suc i))))"
      by cases (simp_all add: kw u, simp_all add: kr2_s1_def)
  qed
  have da: "\<forall>i\<le>Suc 0.
      \<not> (d_size (d_mem dll_s1 (dll_walk dll_s1 (Suc i))) = dll_mm_units 8000 \<or>
         size_t (dll_mm_units 8000 + 2) \<le> d_size (d_mem dll_s1 (dll_walk dll_s1 (Suc i))))"
  proof (intro allI impI)
    fix i :: nat
    assume "i \<le> Suc 0"
    then consider "i = 0" | "i = Suc 0" by arith
    then show "\<not> (d_size (d_mem dll_s1 (dll_walk dll_s1 (Suc i))) = dll_mm_units 8000 \<or>
         size_t (dll_mm_units 8000 + 2) \<le> d_size (d_mem dll_s1 (dll_walk dll_s1 (Suc i))))"
      by cases (simp_all add: dw u size_t_def, simp_all add: dll_s1_def)
  qed
  have kf: "mem_max (k_arena kr2_s1) <
      mem_brk (k_arena kr2_s1) +
      kr2_mm_bytes (max (kr2_mm_units 8000)
        (mem_pagesize (k_arena kr2_s1) div kr2_sizeof_Header))"
    by (simp add: u kr2_s1_def arena_defs kr2_mm_bytes_def size_t_def kr2_sizeof_Header_def)
  have df: "mem_max (d_arena dll_s1) <
      mem_brk (d_arena dll_s1) +
      dll_mm_bytes (max (dll_mm_units 8000)
        (mem_pagesize (d_arena dll_s1) div dll_sizeof_Header))"
    by (simp add: u dll_s1_def arena_defs dll_mm_bytes_def size_t_def dll_sizeof_Header_def)
  have kn: "k_freep kr2_s1 \<noteq> NULL" "kr2_walk kr2_s1 (Suc (Suc (Suc 0))) = k_freep kr2_s1"
    by (simp_all add: kw, simp_all add: kr2_s1_def)
  have dn: "d_freep dll_s1 \<noteq> NULL" "dll_walk dll_s1 (Suc (Suc 0)) = d_freep dll_s1"
    by (simp_all add: dw, simp_all add: dll_s1_def)
  note m = malloc_out_of_memory [where s = kr2_s1 and k = "Suc (Suc 0)" and nbytes = 8000
      and t = dll_s1 and k' = "Suc 0" and nbytes' = 8000]
  have w1: "kr2_mm_malloc kr2_s1 8000 = Some (Inr (kr2_s1\<lparr>k_errno := ENOMEM\<rparr>, NULL))"
    by (rule m [THEN conjunct1, THEN mp]) (intro conjI kn ka kf)
  have w2: "dll_mm_malloc dll_s1 8000 = Some (Inr (dll_s1\<lparr>d_errno := ENOMEM\<rparr>, NULL))"
    by (rule m [THEN conjunct2, THEN mp]) (intro conjI dn da df)
  from w1 w2 show ?thesis by (rule conjI)
qed

end
